theory Spec2Isabelle
  imports Complex_Main "HOL-Library.Multiset"
begin

section \<open>The replay token store (enclave/tokenmanager.go)\<close>

text \<open>
  \<^verbatim>\<open>AuctionToken\<close> is the struct stored per token; \<^verbatim>\<open>CreatedAt\<close> is a
  \<^verbatim>\<open>time.Time\<close>, modelled as a count of nanoseconds.
\<close>

record AuctionToken =
  TokenID :: string
  CreatedAt :: int

text \<open>
  \<^verbatim>\<open>TokenManager\<close> has the single field \<^verbatim>\<open>tokens sync.Map\<close>, a map from the
  token identifier to the token. Every method takes the manager and, when it mutates the
  map, returns the manager it leaves behind.
\<close>

record TokenManager =
  tokens :: "string \<rightharpoonup> AuctionToken"

definition NewTokenManager :: TokenManager where
  "NewTokenManager = \<lparr>tokens = Map.empty\<rparr>"

text \<open>
  The operations of \<^verbatim>\<open>sync.Map\<close> the token manager calls. Each of them is one
  atomic operation of the Go library; \<^verbatim>\<open>LoadAndDelete\<close> returns the previous value
  (if any) and whether the key was present, and leaves the map without the key.
\<close>

definition syncmap_Load :: "('k \<rightharpoonup> 'v) \<Rightarrow> 'k \<Rightarrow> 'v option \<times> bool" where
  "syncmap_Load m k = (m k, m k \<noteq> None)"

definition syncmap_Store :: "('k \<rightharpoonup> 'v) \<Rightarrow> 'k \<Rightarrow> 'v \<Rightarrow> ('k \<rightharpoonup> 'v)" where
  "syncmap_Store m k v = m(k \<mapsto> v)"

definition syncmap_Delete :: "('k \<rightharpoonup> 'v) \<Rightarrow> 'k \<Rightarrow> ('k \<rightharpoonup> 'v)" where
  "syncmap_Delete m k = m(k := None)"

definition syncmap_LoadAndDelete ::
  "('k \<rightharpoonup> 'v) \<Rightarrow> 'k \<Rightarrow> ('v option \<times> bool) \<times> ('k \<rightharpoonup> 'v)" where
  "syncmap_LoadAndDelete m k = ((m k, m k \<noteq> None), m(k := None))"

text \<open>
  \<^verbatim>\<open>GenerateToken\<close>: the identifier is \<^verbatim>\<open>uuid.New().String()\<close> and the time is
  \<^verbatim>\<open>time.Now()\<close>; both come from outside and are arguments here.
\<close>

definition GenerateToken :: "TokenManager \<Rightarrow> string \<Rightarrow> int \<Rightarrow> string \<times> TokenManager" where
  "GenerateToken tm tokenID now =
     (tokenID,
      tm\<lparr>tokens := syncmap_Store (tokens tm) tokenID \<lparr>TokenID = tokenID, CreatedAt = now\<rparr>\<rparr>)"

definition ValidateToken :: "TokenManager \<Rightarrow> string \<Rightarrow> bool" where
  "ValidateToken tm tokenID =
     (if tokenID = '''' then False
      else (let (_, exists) = syncmap_Load (tokens tm) tokenID in exists))"

definition ValidateAndConsumeToken :: "TokenManager \<Rightarrow> string \<Rightarrow> bool \<times> TokenManager" where
  "ValidateAndConsumeToken tm tokenID =
     (if tokenID = '''' then (False, tm)
      else (let ((_, existed), m') = syncmap_LoadAndDelete (tokens tm) tokenID
            in (existed, tm\<lparr>tokens := m'\<rparr>)))"

definition ConsumeToken :: "TokenManager \<Rightarrow> string \<Rightarrow> TokenManager" where
  "ConsumeToken tm tokenID = tm\<lparr>tokens := syncmap_Delete (tokens tm) tokenID\<rparr>"

fun ConsumeTokens :: "TokenManager \<Rightarrow> string list \<Rightarrow> TokenManager" where
  "ConsumeTokens tm [] = tm"
| "ConsumeTokens tm (tokenID # tokenIDs) =
     ConsumeTokens (tm\<lparr>tokens := syncmap_Delete (tokens tm) tokenID\<rparr>) tokenIDs"

text \<open>\<^verbatim>\<open>Count\<close> ranges over the map and counts its entries.\<close>

definition Count :: "TokenManager \<Rightarrow> nat" where
  "Count tm = card (dom (tokens tm))"

section \<open>Concurrent callers of ValidateAndConsumeToken\<close>

text \<open>
  Callers that run \<^verbatim>\<open>ValidateAndConsumeToken(tokenID)\<close> at the same time on one
  manager, as the goroutines of the test suite do. The body of the function reaches the
  shared map once, in \<^verbatim>\<open>LoadAndDelete\<close>, one atomic operation of \<^verbatim>\<open>sync.Map\<close>;
  what comes before it, the test \<^verbatim>\<open>tokenID == ""\<close>, reads only the argument. So a
  caller takes two steps. The first is the test, which returns false for the empty
  identifier. The second is the rest of the call, run on the store as the other callers
  have left it by then: the identifier is not empty there, so it is what
  \<^const>\<open>ValidateAndConsumeToken\<close> does on that store, \<^verbatim>\<open>LoadAndDelete\<close> and the
  return of its flag. A schedule is the list of the callers' indices in the order in
  which they take their steps; every interleaving of the callers is a schedule. A caller
  that has returned takes no further step, and an index that names no caller changes
  nothing.
\<close>

datatype caller = Entered | Deleting | Returned bool

definition caller_step :: "string \<Rightarrow> caller \<Rightarrow> TokenManager \<Rightarrow> caller \<times> TokenManager" where
  "caller_step tokenID c tm =
     (case c of
        Entered \<Rightarrow> (if tokenID = '''' then Returned False else Deleting, tm)
      | Deleting \<Rightarrow>
          (let (existed, tm') = ValidateAndConsumeToken tm tokenID
           in (Returned existed, tm'))
      | Returned r \<Rightarrow> (Returned r, tm))"

definition sched_step ::
  "string \<Rightarrow> nat \<Rightarrow> caller list \<times> TokenManager \<Rightarrow> caller list \<times> TokenManager" where
  "sched_step tokenID i cfg =
     (let (cs, tm) = cfg
      in if i < length cs
         then (let (c', tm') = caller_step tokenID (cs ! i) tm in (cs[i := c'], tm'))
         else cfg)"

fun run_callers ::
  "string \<Rightarrow> nat list \<Rightarrow> caller list \<times> TokenManager \<Rightarrow> caller list \<times> TokenManager" where
  "run_callers tokenID [] cfg = cfg"
| "run_callers tokenID (i # sched) cfg = run_callers tokenID sched (sched_step tokenID i cfg)"

definition all_returned :: "caller list \<Rightarrow> bool" where
  "all_returned cs = list_all (\<lambda>c. c \<noteq> Entered \<and> c \<noteq> Deleting) cs"

text \<open>
  A schedule is complete for \<open>n\<close> callers when it gives each of them the two steps of
  its call (further steps of a caller that has returned change nothing). These are the
  runs in which every call is carried through, whatever the order of the steps.
\<close>

definition complete_schedule :: "nat \<Rightarrow> nat list \<Rightarrow> bool" where
  "complete_schedule n sched = list_all (\<lambda>i. 2 \<le> count_list sched i) [0..<n]"

definition successes :: "caller list \<Rightarrow> nat" where
  "successes cs = length (filter (\<lambda>c. c = Returned True) cs)"

definition failures :: "caller list \<Rightarrow> nat" where
  "failures cs = length (filter (\<lambda>c. c = Returned False) cs)"

text \<open>How far a caller has come, and the invariant of a race for one stored token.\<close>

definition phase :: "caller \<Rightarrow> nat" where
  "phase c = (case c of Entered \<Rightarrow> 0 | Deleting \<Rightarrow> 1 | Returned _ \<Rightarrow> 2)"

definition race_inv ::
  "TokenManager \<Rightarrow> string \<Rightarrow> nat \<Rightarrow> caller list \<times> TokenManager \<Rightarrow> bool" where
  "race_inv tm t n cfg =
     (length (fst cfg) = n \<and>
      ((snd cfg = tm \<and> successes (fst cfg) = 0 \<and> failures (fst cfg) = 0) \<or>
       (snd cfg = tm\<lparr>tokens := (tokens tm)(t := None)\<rparr> \<and> successes (fst cfg) = 1)))"

text \<open>
  For contrast, a caller that would validate and consume in two calls,
  \<^verbatim>\<open>ValidateToken\<close> and then \<^verbatim>\<open>ConsumeToken\<close>: its check and its removal are two
  accesses to the map, and other callers may run between them.
\<close>

datatype two_call_caller = Arrived | Validated | Left bool

definition two_call_step ::
  "string \<Rightarrow> two_call_caller \<Rightarrow> TokenManager \<Rightarrow> two_call_caller \<times> TokenManager" where
  "two_call_step tokenID c tm =
     (case c of
        Arrived \<Rightarrow> (if ValidateToken tm tokenID then Validated else Left False, tm)
      | Validated \<Rightarrow> (Left True, ConsumeToken tm tokenID)
      | Left r \<Rightarrow> (Left r, tm))"

fun run_two_call ::
  "string \<Rightarrow> nat list \<Rightarrow> two_call_caller list \<times> TokenManager \<Rightarrow>
   two_call_caller list \<times> TokenManager" where
  "run_two_call tokenID [] cfg = cfg"
| "run_two_call tokenID (i # sched) cfg =
     run_two_call tokenID sched
       (let (cs, tm) = cfg
        in if i < length cs
           then (let (c', tm') = two_call_step tokenID (cs ! i) tm in (cs[i := c'], tm'))
           else cfg)"

section \<open>The auction ranker (core/auctionranking.go)\<close>

subsection \<open>Prices\<close>

text \<open>
  A price is a Go \<^verbatim>\<open>float64\<close>. The ranker never computes with prices, it only compares
  them, so a price is modelled by what comparison can tell apart: not-a-number, the two
  infinities, and the finite values by the real number they denote (the two zeros compare
  equal in Go and are one value here). \<open>f64_gt\<close> is Go's \<^verbatim>\<open>>\<close> and \<open>f64_ge\<close> is
  Go's \<^verbatim>\<open>>=\<close>: both are false as soon as one side is not a number.
\<close>

datatype float64 = NaN | NegInf | Finite real | PosInf

fun f64_gt :: "float64 \<Rightarrow> float64 \<Rightarrow> bool" where
  "f64_gt NaN y = False"
| "f64_gt x NaN = False"
| "f64_gt PosInf y = (y \<noteq> PosInf)"
| "f64_gt (Finite x) (Finite y) = (y < x)"
| "f64_gt (Finite x) NegInf = True"
| "f64_gt (Finite x) PosInf = False"
| "f64_gt NegInf y = False"

definition f64_ge :: "float64 \<Rightarrow> float64 \<Rightarrow> bool" where
  "f64_ge x y = (x \<noteq> NaN \<and> y \<noteq> NaN \<and> \<not> f64_gt y x)"

subsection \<open>Bids and the ranking result\<close>

record CoreBid =
  ID :: string
  Bidder :: string
  Price :: float64
  Currency :: string
  DealID :: string
  BidType :: string

text \<open>
  The maps of the result hold pointers into the slice of bids; the bids are never
  written, so a pointer is modelled by the bid it points to. A rank is a loop index plus
  one, a natural number.
\<close>

record CoreRankingResult =
  Ranks :: "string \<rightharpoonup> nat"
  HighestBids :: "string \<rightharpoonup> CoreBid"
  SortedBidders :: "string list"

text \<open>The local struct \<^verbatim>\<open>BidEntry\<close>: the bidder and the bid.\<close>

type_synonym BidEntry = "string \<times> CoreBid"

subsection \<open>What the Go runtime and library leave open\<close>

text \<open>
  \<^verbatim>\<open>for bidder, bid := range bidderMap\<close> visits every key of the map once, in an order
  the language does not fix and the runtime randomises. The order of one run is the list
  \<open>ks\<close>; it is a parameter of the model.
\<close>

definition map_range_order :: "('k \<rightharpoonup> 'v) \<Rightarrow> 'k list \<Rightarrow> bool" where
  "map_range_order m ks = (distinct ks \<and> set ks = dom m)"

text \<open>
  \<^verbatim>\<open>sort.Slice\<close> is a parameter too, under the contract of its documentation: the
  sorted slice is a rearrangement of the slice it was given, and when \<^verbatim>\<open>less\<close> is a
  strict weak ordering of the elements no element is \<^verbatim>\<open>less\<close> than one before it. The
  sort is not stable, so nothing is said about elements neither of which is \<^verbatim>\<open>less\<close>
  than the other.
\<close>

definition strict_weak_ordering_on :: "'a set \<Rightarrow> ('a \<Rightarrow> 'a \<Rightarrow> bool) \<Rightarrow> bool" where
  "strict_weak_ordering_on A lt =
     ((\<forall>a\<in>A. \<not> lt a a) \<and>
      (\<forall>a\<in>A. \<forall>b\<in>A. \<forall>c\<in>A. lt a b \<longrightarrow> lt b c \<longrightarrow> lt a c) \<and>
      (\<forall>a\<in>A. \<forall>b\<in>A. \<forall>c\<in>A. \<not> lt a b \<longrightarrow> \<not> lt b c \<longrightarrow> \<not> lt a c))"

definition sort_Slice_contract :: "(('a \<Rightarrow> 'a \<Rightarrow> bool) \<Rightarrow> 'a list \<Rightarrow> 'a list) \<Rightarrow> bool" where
  "sort_Slice_contract sort_Slice =
     (\<forall>lt xs.
        mset (sort_Slice lt xs) = mset xs \<and>
        (strict_weak_ordering_on (set xs) lt \<longrightarrow>
           sorted_wrt (\<lambda>a b. \<not> lt b a) (sort_Slice lt xs)))"

subsection \<open>RankCoreBids\<close>

text \<open>
  The first loop: per bidder, keep the first bid and replace it by a later one only when
  \<^verbatim>\<open>bid.Price > existing.Price\<close>.
\<close>

fun group_bids :: "CoreBid list \<Rightarrow> (string \<rightharpoonup> CoreBid) \<Rightarrow> (string \<rightharpoonup> CoreBid)" where
  "group_bids [] bidderMap = bidderMap"
| "group_bids (bid # bids) bidderMap =
     group_bids bids
       (case bidderMap (Bidder bid) of
          None \<Rightarrow> bidderMap(Bidder bid \<mapsto> bid)
        | Some existing \<Rightarrow>
            if f64_gt (Price bid) (Price existing) then bidderMap(Bidder bid \<mapsto> bid)
            else bidderMap)"

text \<open>The second loop: one entry per key of the map, in the order of the range.\<close>

definition range_entries :: "string list \<Rightarrow> (string \<rightharpoonup> CoreBid) \<Rightarrow> BidEntry list" where
  "range_entries ks bidderMap = List.map_filter (\<lambda>k. map_option (Pair k) (bidderMap k)) ks"

text \<open>The \<^verbatim>\<open>less\<close> function handed to \<^verbatim>\<open>sort.Slice\<close>.\<close>

definition entry_less :: "BidEntry \<Rightarrow> BidEntry \<Rightarrow> bool" where
  "entry_less e1 e2 = f64_gt (Price (snd e1)) (Price (snd e2))"

text \<open>
  The third loop, from index \<open>rank\<close> on. \<^verbatim>\<open>SortedBidders\<close> was made with the length of
  \<^verbatim>\<open>entries\<close>, so the write at \<open>rank\<close> is in range.
\<close>

fun assign_ranks :: "nat \<Rightarrow> BidEntry list \<Rightarrow> CoreRankingResult \<Rightarrow> CoreRankingResult" where
  "assign_ranks rank [] result = result"
| "assign_ranks rank (entry # entries) result =
     assign_ranks (rank + 1) entries
       (result\<lparr>Ranks := (Ranks result)(fst entry \<mapsto> rank + 1),
               HighestBids := (HighestBids result)(fst entry \<mapsto> snd entry),
               SortedBidders := (SortedBidders result)[rank := fst entry]\<rparr>)"

definition RankCoreBids ::
  "((BidEntry \<Rightarrow> BidEntry \<Rightarrow> bool) \<Rightarrow> BidEntry list \<Rightarrow> BidEntry list) \<Rightarrow> string list \<Rightarrow>
   CoreBid list \<Rightarrow> CoreRankingResult" where
  "RankCoreBids sort_Slice ks bids =
     (if length bids = 0
      then \<lparr>Ranks = Map.empty, HighestBids = Map.empty, SortedBidders = []\<rparr>
      else (let bidderMap = group_bids bids Map.empty;
                entries = sort_Slice entry_less (range_entries ks bidderMap)
            in assign_ranks 0 entries
                 \<lparr>Ranks = Map.empty, HighestBids = Map.empty,
                  SortedBidders = replicate (length entries) ''''\<rparr>))"

text \<open>What the loop keeps for one bidder: the best of a bid and the later bids.\<close>

fun keep_best :: "CoreBid \<Rightarrow> CoreBid list \<Rightarrow> CoreBid" where
  "keep_best e [] = e"
| "keep_best e (x # xs) = keep_best (if f64_gt (Price x) (Price e) then x else e) xs"

text \<open>
  The prices of the retained bids in the order of \<^verbatim>\<open>SortedBidders\<close>, and what it means
  for a bid \<open>x\<close> to be the first bid of highest price in a list of bids: every bid before
  it is strictly lower and no bid after it is higher.
\<close>

definition retained_prices :: "CoreRankingResult \<Rightarrow> float64 list" where
  "retained_prices r =
     List.map_filter (\<lambda>b. map_option Price (HighestBids r b)) (SortedBidders r)"

definition first_highest :: "CoreBid \<Rightarrow> CoreBid list \<Rightarrow> bool" where
  "first_highest x xs =
     (\<exists>ys zs. xs = ys @ x # zs \<and>
        list_all (\<lambda>y. f64_gt (Price x) (Price y)) ys \<and>
        list_all (\<lambda>z. f64_ge (Price x) (Price z)) zs)"

text \<open>
  Insertion sort as Go's \<^verbatim>\<open>sort\<close> package runs it on a short slice (at most 12
  elements): each element in turn moves left while it is \<^verbatim>\<open>less\<close> than its left
  neighbour. \<open>insert_left\<close> works on the reversed prefix.
\<close>

fun insert_left :: "('a \<Rightarrow> 'a \<Rightarrow> bool) \<Rightarrow> 'a \<Rightarrow> 'a list \<Rightarrow> 'a list" where
  "insert_left lt x [] = [x]"
| "insert_left lt x (y # rp) = (if lt x y then y # insert_left lt x rp else x # y # rp)"

definition insertion_sort :: "('a \<Rightarrow> 'a \<Rightarrow> bool) \<Rightarrow> 'a list \<Rightarrow> 'a list" where
  "insertion_sort lt xs = rev (foldl (\<lambda>rp x. insert_left lt x rp) [] xs)"

section \<open>Hybrid encryption (enclave/crypto.go, enclave/testcryptoutils.go)\<close>

text \<open>
  Go's \<^verbatim>\<open>[]byte\<close> and \<^verbatim>\<open>string\<close> are both sequences of bytes, here lists of
  \<^typ>\<open>char\<close>. An error of the Go library is the message it carries.
\<close>

type_synonym bytes = "char list"

type_synonym lib_error = string

subsection \<open>The Go library\<close>

text \<open>
  The two functions call \<^verbatim>\<open>encoding/base64\<close>, \<^verbatim>\<open>crypto/rand\<close>, \<^verbatim>\<open>crypto/rsa\<close>,
  \<^verbatim>\<open>crypto/aes\<close> and \<^verbatim>\<open>crypto/cipher\<close>. None of these is part of the
  repository; the model takes them as a record of functions. \<open>'rng\<close> is the state of
  \<^verbatim>\<open>rand.Reader\<close>, threaded through every call that draws from it; \<open>'priv\<close> and \<open>'pub\<close>
  are \<^verbatim>\<open>rsa.PrivateKey\<close> and \<^verbatim>\<open>rsa.PublicKey\<close>, and \<open>rsa_PublicKey\<close> is the field
  \<^verbatim>\<open>privateKey.PublicKey\<close>. \<^verbatim>\<open>rsa.DecryptOAEP\<close> uses its random source for blinding
  only, so its result does not depend on it. The hash (SHA-256) and the empty label are
  fixed in both calls and are not arguments here. An AES-GCM cipher is represented by the
  key it was made from.
\<close>

record ('pub, 'priv, 'rng) go_crypto =
  base64_EncodeToString :: "bytes \<Rightarrow> string"
  base64_DecodeString :: "string \<Rightarrow> lib_error + bytes"
  rand_Read :: "nat \<Rightarrow> 'rng \<Rightarrow> (lib_error + bytes) \<times> 'rng"
  rsa_PublicKey :: "'priv \<Rightarrow> 'pub"
  rsa_EncryptOAEP :: "'rng \<Rightarrow> 'pub \<Rightarrow> bytes \<Rightarrow> (lib_error + bytes) \<times> 'rng"
  rsa_DecryptOAEP :: "'priv \<Rightarrow> bytes \<Rightarrow> lib_error + bytes"
  gcm_Seal :: "bytes \<Rightarrow> bytes \<Rightarrow> bytes \<Rightarrow> bytes"
  gcm_Open :: "bytes \<Rightarrow> bytes \<Rightarrow> bytes \<Rightarrow> lib_error + bytes"

text \<open>
  What the documentation of the library promises and the round trip needs: decoding an
  encoding gives the bytes back; \<^verbatim>\<open>rand.Read\<close> fills the whole buffer when it returns
  no error; a ciphertext that \<^verbatim>\<open>EncryptOAEP\<close> returned for a public key decrypts under
  its private key to the message; and \<^verbatim>\<open>Open\<close> gives back what \<^verbatim>\<open>Seal\<close> sealed under
  the same 32-byte key and 12-byte nonce.
\<close>

definition go_crypto_contract :: "('pub, 'priv, 'rng) go_crypto \<Rightarrow> bool" where
  "go_crypto_contract lib =
     ((\<forall>bs. base64_DecodeString lib (base64_EncodeToString lib bs) = Inr bs) \<and>
      (\<forall>n g bs g'. rand_Read lib n g = (Inr bs, g') \<longrightarrow> length bs = n) \<and>
      (\<forall>g priv msg c g'.
         rsa_EncryptOAEP lib g (rsa_PublicKey lib priv) msg = (Inr c, g') \<longrightarrow>
         rsa_DecryptOAEP lib priv c = Inr msg) \<and>
      (\<forall>k nonce plaintext.
         length k = 32 \<and> length nonce = 12 \<longrightarrow>
         gcm_Open lib k nonce (gcm_Seal lib k nonce plaintext) = Inr plaintext))"

text \<open>
  \<^verbatim>\<open>aes.NewCipher\<close> accepts keys of 16, 24 or 32 bytes and returns a
  \<^verbatim>\<open>KeySizeError\<close> otherwise. \<^verbatim>\<open>cipher.NewGCM\<close> fails only for a block size other
  than 16, which AES never has, and the nonce size of the cipher it returns is 12.
  \<^verbatim>\<open>Seal\<close> and \<^verbatim>\<open>Open\<close> panic on a nonce of another length; \<^verbatim>\<open>EncryptHybrid\<close>
  makes its nonce buffer with that size and \<^verbatim>\<open>DecryptHybrid\<close> checks the length first.
\<close>

definition aes_NewCipher :: "bytes \<Rightarrow> lib_error + bytes" where
  "aes_NewCipher k =
     (if length k = 16 \<or> length k = 24 \<or> length k = 32 then Inr k
      else Inl ''crypto/aes: invalid key size'')"

definition cipher_NewGCM :: "bytes \<Rightarrow> lib_error + bytes" where
  "cipher_NewGCM block = Inr block"

definition gcm_NonceSize :: nat where
  "gcm_NonceSize = 12"

subsection \<open>Errors and results\<close>

text \<open>One constructor per \<^verbatim>\<open>fmt.Errorf\<close> of the two functions, with what it wraps.\<close>

datatype hybrid_error =
    FailedDecodeAESKey lib_error
  | FailedDecodePayload lib_error
  | FailedDecodeNonce lib_error
  | FailedDecryptAESKey lib_error
  | InvalidAESKeyLength nat
  | FailedCreateCipher lib_error
  | FailedCreateGCM lib_error
  | InvalidNonceLength nat nat
  | FailedDecryptPayload lib_error
  | FailedGenerateAESKey lib_error
  | FailedGenerateNonce lib_error
  | FailedEncryptAESKey lib_error

record HybridEncryptionResult =
  EncryptedAESKey :: string
  EncryptedPayload :: string
  Nonce :: string

subsection \<open>DecryptHybrid\<close>

definition DecryptHybrid ::
  "('pub, 'priv, 'rng) go_crypto \<Rightarrow> string \<Rightarrow> string \<Rightarrow> string \<Rightarrow> 'priv \<Rightarrow>
   hybrid_error + bytes" where
  "DecryptHybrid lib encryptedAESKey encryptedPayload nonceB64 privateKey =
     (case base64_DecodeString lib encryptedAESKey of
        Inl err \<Rightarrow> Inl (FailedDecodeAESKey err)
      | Inr encryptedAESKeyBytes \<Rightarrow>
     (case base64_DecodeString lib encryptedPayload of
        Inl err \<Rightarrow> Inl (FailedDecodePayload err)
      | Inr encryptedPayloadBytes \<Rightarrow>
     (case base64_DecodeString lib nonceB64 of
        Inl err \<Rightarrow> Inl (FailedDecodeNonce err)
      | Inr nonceBytes \<Rightarrow>
     (case rsa_DecryptOAEP lib privateKey encryptedAESKeyBytes of
        Inl err \<Rightarrow> Inl (FailedDecryptAESKey err)
      | Inr aesKey \<Rightarrow>
          if length aesKey \<noteq> 32 then Inl (InvalidAESKeyLength (length aesKey))
          else
     (case aes_NewCipher aesKey of
        Inl err \<Rightarrow> Inl (FailedCreateCipher err)
      | Inr block \<Rightarrow>
     (case cipher_NewGCM block of
        Inl err \<Rightarrow> Inl (FailedCreateGCM err)
      | Inr aesgcm \<Rightarrow>
          if length nonceBytes \<noteq> gcm_NonceSize
          then Inl (InvalidNonceLength gcm_NonceSize (length nonceBytes))
          else
     (case gcm_Open lib aesgcm nonceBytes encryptedPayloadBytes of
        Inl err \<Rightarrow> Inl (FailedDecryptPayload err)
      | Inr plaintext \<Rightarrow> Inr plaintext)))))))"

subsection \<open>EncryptHybrid\<close>

text \<open>
  The function returns its result or its error; the state of the random source it leaves
  is returned with it.
\<close>

definition EncryptHybrid ::
  "('pub, 'priv, 'rng) go_crypto \<Rightarrow> 'rng \<Rightarrow> bytes \<Rightarrow> 'pub \<Rightarrow>
   (hybrid_error + HybridEncryptionResult) \<times> 'rng" where
  "EncryptHybrid lib g plaintext publicKey =
     (case rand_Read lib 32 g of
        (Inl err, g1) \<Rightarrow> (Inl (FailedGenerateAESKey err), g1)
      | (Inr aesKey, g1) \<Rightarrow>
     (case aes_NewCipher aesKey of
        Inl err \<Rightarrow> (Inl (FailedCreateCipher err), g1)
      | Inr block \<Rightarrow>
     (case cipher_NewGCM block of
        Inl err \<Rightarrow> (Inl (FailedCreateGCM err), g1)
      | Inr aesgcm \<Rightarrow>
     (case rand_Read lib gcm_NonceSize g1 of
        (Inl err, g2) \<Rightarrow> (Inl (FailedGenerateNonce err), g2)
      | (Inr nonceBytes, g2) \<Rightarrow>
          let ciphertext = gcm_Seal lib aesgcm nonceBytes plaintext
          in
     (case rsa_EncryptOAEP lib g2 publicKey aesKey of
        (Inl err, g3) \<Rightarrow> (Inl (FailedEncryptAESKey err), g3)
      | (Inr encryptedAESKeyBytes, g3) \<Rightarrow>
          (Inr \<lparr>EncryptedAESKey = base64_EncodeToString lib encryptedAESKeyBytes,
                EncryptedPayload = base64_EncodeToString lib ciphertext,
                Nonce = base64_EncodeToString lib nonceBytes\<rparr>, g3))))))"

section \<open>The decryption pipeline and the replay filter\<close>

text \<open>
  The wire types of the core package. The field names \<^verbatim>\<open>EncryptedPayload\<close>,
  \<^verbatim>\<open>Nonce\<close>, \<^verbatim>\<open>Price\<close> and \<^verbatim>\<open>AuctionToken\<close> are taken by records above, so here
  they carry a prime. An absent \<^verbatim>\<open>auction_token\<close> is the empty string, as Go decodes it.
\<close>

record EncryptedBidPrice =
  AESKeyEncrypted :: string
  EncryptedPayload' :: string
  Nonce' :: string

record DecryptedBidPayload =
  Price' :: float64
  AuctionToken' :: string

text \<open>
  Modelled from the spec: \<^verbatim>\<open>EncryptedCoreBid\<close> (package enclaveapi) is not among the
  sources. The tests build one from an embedded \<^verbatim>\<open>CoreBid\<close> and an optional
  \<^verbatim>\<open>EncryptedPrice\<close>.
\<close>

record EncryptedCoreBid =
  CoreBid :: CoreBid
  EncryptedPrice :: "EncryptedBidPrice option"

text \<open>
  Modelled from the spec: \<^verbatim>\<open>KeyManager\<close> is not among the sources. It holds the RSA
  key pair of the enclave; the tests read its \<^verbatim>\<open>PublicKey\<close>.
\<close>

record ('pub, 'priv) KeyManager =
  PrivateKey :: 'priv
  PublicKey :: 'pub

text \<open>
  Modelled from the spec: the type of a decrypted bid is not among the sources. Section
  4.3 of the spec: the bid with its resolved price, carrying the optional auction token
  (the empty string when there is none).
\<close>

record DecryptedBid =
  Bid :: CoreBid
  Token :: string

text \<open>
  Modelled from the spec: the exclusion record is not among the sources. Section 3 of the
  spec: bid identifier, bidder identifier and a reason; the tests read \<^verbatim>\<open>BidID\<close> and
  \<^verbatim>\<open>Bidder\<close>. The field \<^verbatim>\<open>Bidder\<close> carries a prime here, the name being taken.
\<close>

record ExcludedBid =
  BidID :: string
  Bidder' :: string
  Reason :: string

text \<open>
  Modelled from the spec: the error report is not among the sources. It is the report of
  one failed bid and keeps the cause of the failure.
\<close>

datatype decrypt_failure = DecryptFailed hybrid_error | ParseFailed lib_error

record ErrorReport =
  ErrBidID :: string
  ErrBidder :: string
  Cause :: decrypt_failure

text \<open>
  Modelled from the spec: \<^verbatim>\<open>decryptAllBids\<close> is called by the tests and is not among
  the sources; this is what it does with one bid. Section 4.3 of the spec: a bid without
  an encrypted price passes through unchanged; without a key manager every bid passes
  through with the price it carries; otherwise the encrypted price is decrypted with
  \<^verbatim>\<open>DecryptHybrid\<close> under the private key of the enclave, a failure gives one
  exclusion record and one error report for the bid, and on success the plaintext is
  parsed as the payload, whose price replaces the price of the bid and whose token is
  carried along. The spec does not say what a plaintext that does not parse does; here it
  is a failure of the bid like a failed decryption. The parser (\<^verbatim>\<open>json.Unmarshal\<close>)
  is a parameter.
\<close>

definition decrypt_bid ::
  "('pub, 'priv, 'rng) go_crypto \<Rightarrow> (bytes \<Rightarrow> lib_error + DecryptedBidPayload) \<Rightarrow>
   ('pub, 'priv) KeyManager option \<Rightarrow> EncryptedCoreBid \<Rightarrow>
   (ExcludedBid \<times> ErrorReport) + DecryptedBid" where
  "decrypt_bid lib parse keyManager b =
     (case EncryptedPrice b of
        None \<Rightarrow> Inr \<lparr>Bid = CoreBid b, Token = ''''\<rparr>
      | Some ep \<Rightarrow>
     (case keyManager of
        None \<Rightarrow> Inr \<lparr>Bid = CoreBid b, Token = ''''\<rparr>
      | Some km \<Rightarrow>
     (case DecryptHybrid lib (AESKeyEncrypted ep) (EncryptedPayload' ep) (Nonce' ep)
             (PrivateKey km) of
        Inl err \<Rightarrow>
          Inl (\<lparr>BidID = ID (CoreBid b), Bidder' = Bidder (CoreBid b),
                 Reason = ''decryption failure''\<rparr>,
               \<lparr>ErrBidID = ID (CoreBid b), ErrBidder = Bidder (CoreBid b),
                 Cause = DecryptFailed err\<rparr>)
      | Inr plaintext \<Rightarrow>
     (case parse plaintext of
        Inl err \<Rightarrow>
          Inl (\<lparr>BidID = ID (CoreBid b), Bidder' = Bidder (CoreBid b),
                 Reason = ''decryption failure''\<rparr>,
               \<lparr>ErrBidID = ID (CoreBid b), ErrBidder = Bidder (CoreBid b),
                 Cause = ParseFailed err\<rparr>)
      | Inr payload \<Rightarrow>
          Inr \<lparr>Bid = (CoreBid b)\<lparr>Price := Price' payload\<rparr>,
                Token = AuctionToken' payload\<rparr>))))"

text \<open>
  Modelled from the spec: the loop of \<^verbatim>\<open>decryptAllBids\<close> over the batch (section
  4.3): every bid is processed, in input order, and its result goes to the decrypted
  bids or to the excluded bids and the error reports.
\<close>

fun decryptAllBids ::
  "('pub, 'priv, 'rng) go_crypto \<Rightarrow> (bytes \<Rightarrow> lib_error + DecryptedBidPayload) \<Rightarrow>
   EncryptedCoreBid list \<Rightarrow> ('pub, 'priv) KeyManager option \<Rightarrow>
   DecryptedBid list \<times> ExcludedBid list \<times> ErrorReport list" where
  "decryptAllBids lib parse [] keyManager = ([], [], [])"
| "decryptAllBids lib parse (b # bids) keyManager =
     (case decryptAllBids lib parse bids keyManager of
        (decryptedBids, excludedBids, errorReports) \<Rightarrow>
     (case decrypt_bid lib parse keyManager b of
        Inl (excluded, report) \<Rightarrow>
          (decryptedBids, excluded # excludedBids, report # errorReports)
      | Inr decrypted \<Rightarrow> (decrypted # decryptedBids, excludedBids, errorReports)))"

text \<open>Modelled from the spec: the three results of the call, by name.\<close>

definition decryptedBids_of :: "'a \<times> 'b \<times> 'c \<Rightarrow> 'a" where
  "decryptedBids_of r = fst r"

definition excludedBids_of :: "'a \<times> 'b \<times> 'c \<Rightarrow> 'b" where
  "excludedBids_of r = fst (snd r)"

definition errorReports_of :: "'a \<times> 'b \<times> 'c \<Rightarrow> 'c" where
  "errorReports_of r = snd (snd r)"

text \<open>
  Modelled from the spec: the price check of the filter, which is not among the sources.
  Section 4.4 of the spec: the price must be a finite number strictly greater than zero.
\<close>

definition price_ok :: "float64 \<Rightarrow> bool" where
  "price_ok p = (case p of Finite r \<Rightarrow> 0 < r | _ \<Rightarrow> False)"

text \<open>
  Modelled from the spec: the checks of the filter on one decrypted bid, in the order of
  section 4.4: an invalid price excludes the bid with the reason "invalid price"; else a
  token that is present and is in the set of consumed tokens excludes it with the reason
  "replay detected"; else the bid is admissible.
\<close>

definition filter_bid :: "string set \<Rightarrow> DecryptedBid \<Rightarrow> ExcludedBid + CoreBid" where
  "filter_bid consumedTokens d =
     (if \<not> price_ok (Price (Bid d))
      then Inl \<lparr>BidID = ID (Bid d), Bidder' = Bidder (Bid d), Reason = ''invalid price''\<rparr>
      else if Token d \<noteq> '''' \<and> Token d \<in> consumedTokens
      then Inl \<lparr>BidID = ID (Bid d), Bidder' = Bidder (Bid d), Reason = ''replay detected''\<rparr>
      else Inr (Bid d))"

text \<open>
  Modelled from the spec: \<^verbatim>\<open>filterBidsByConsumedTokens\<close> is called by the tests and
  is not among the sources. Section 4.4 of the spec: the checks are applied to each
  decrypted bid, and the admissible bids and the exclusions keep the input order.
\<close>

fun filterBidsByConsumedTokens ::
  "DecryptedBid list \<Rightarrow> string set \<Rightarrow> CoreBid list \<times> ExcludedBid list" where
  "filterBidsByConsumedTokens [] consumedTokens = ([], [])"
| "filterBidsByConsumedTokens (d # ds) consumedTokens =
     (case filterBidsByConsumedTokens ds consumedTokens of
        (admissibleBids, exclusions) \<Rightarrow>
     (case filter_bid consumedTokens d of
        Inl excluded \<Rightarrow> (admissibleBids, excluded # exclusions)
      | Inr admissible \<Rightarrow> (admissible # admissibleBids, exclusions)))"

section \<open>Concrete inputs\<close>

text \<open>A manager holding one token, as after one call of \<^verbatim>\<open>GenerateToken\<close>.\<close>

definition tm_one :: TokenManager where
  "tm_one = snd (GenerateToken NewTokenManager ''tok-1'' 0)"

text \<open>Bids: the three of the integration test, and lists with a tie, a repeat and a NaN.\<close>

definition mk_bid :: "string \<Rightarrow> string \<Rightarrow> float64 \<Rightarrow> CoreBid" where
  "mk_bid i b p =
     \<lparr>ID = i, Bidder = b, Price = p, Currency = ''USD'', DealID = '''', BidType = ''''\<rparr>"

definition bids_abc :: "CoreBid list" where
  "bids_abc =
     [mk_bid ''bid_a_001'' ''bidder_a'' (Finite 2.50),
      mk_bid ''bid_b_001'' ''bidder_b'' (Finite 2.25),
      mk_bid ''bid_c_001'' ''bidder_c'' (Finite 2.75)]"

definition bids_tie :: "CoreBid list" where
  "bids_tie = [mk_bid ''t1'' ''a'' (Finite 1), mk_bid ''t2'' ''b'' (Finite 1)]"

definition bids_repeat :: "CoreBid list" where
  "bids_repeat =
     [mk_bid ''r1'' ''b'' (Finite 2), mk_bid ''r2'' ''b'' (Finite 5),
      mk_bid ''r3'' ''a'' (Finite 1), mk_bid ''r4'' ''b'' (Finite 5)]"

definition bids_nan :: "CoreBid list" where
  "bids_nan = [mk_bid ''n1'' ''b'' NaN, mk_bid ''n2'' ''b'' (Finite 5)]"

definition bids_nan3 :: "CoreBid list" where
  "bids_nan3 =
     [mk_bid ''m1'' ''a'' (Finite 1), mk_bid ''m2'' ''b'' NaN, mk_bid ''m3'' ''c'' (Finite 2)]"

text \<open>
  A library that keeps the contract, small enough to evaluate: base64 is the identity,
  the random source is a counter that returns zeros first and ones afterwards, a key pair
  is one character, an OAEP ciphertext is the key's character followed by the message,
  and a sealed text is the key, the nonce and the plaintext.
\<close>

definition toy_open :: "bytes \<Rightarrow> bytes \<Rightarrow> bytes \<Rightarrow> lib_error + bytes" where
  "toy_open k nonce ct =
     (if take (length k + length nonce) ct = k @ nonce
      then Inr (drop (length k + length nonce) ct)
      else Inl ''cipher: message authentication failed'')"

definition toy_decrypt_oaep :: "char \<Rightarrow> bytes \<Rightarrow> lib_error + bytes" where
  "toy_decrypt_oaep priv c =
     (case c of
        [] \<Rightarrow> Inl ''crypto/rsa: decryption error''
      | k # msg \<Rightarrow> if k = priv then Inr msg else Inl ''crypto/rsa: decryption error'')"

definition toy_lib :: "(char, char, nat) go_crypto" where
  "toy_lib =
     \<lparr>base64_EncodeToString = (\<lambda>bs. bs),
      base64_DecodeString = (\<lambda>s. Inr s),
      rand_Read = (\<lambda>n g. (Inr (replicate n (if g = 0 then CHR ''0'' else CHR ''1'')), Suc g)),
      rsa_PublicKey = (\<lambda>priv. priv),
      rsa_EncryptOAEP = (\<lambda>g pub msg. (Inr (pub # msg), Suc g)),
      rsa_DecryptOAEP = toy_decrypt_oaep,
      gcm_Seal = (\<lambda>k nonce plaintext. k @ nonce @ plaintext),
      gcm_Open = toy_open\<rparr>"

text \<open>What \<^verbatim>\<open>EncryptHybrid\<close> returns with that library for a plaintext and the key k.\<close>

definition toy_encrypted :: "bytes \<Rightarrow> HybridEncryptionResult" where
  "toy_encrypted plaintext =
     \<lparr>EncryptedAESKey = CHR ''k'' # replicate 32 CHR ''0'',
      EncryptedPayload = replicate 32 CHR ''0'' @ replicate 12 CHR ''1'' @ plaintext,
      Nonce = replicate 12 CHR ''1''\<rparr>"

text \<open>
  Bids for the pipeline: a plaintext bid, a bid whose price was encrypted for the key k
  with the payload given, a parser that knows two payloads, and two key managers: the one
  of the key k and the one of another key.
\<close>

definition plain_bid :: "string \<Rightarrow> string \<Rightarrow> float64 \<Rightarrow> EncryptedCoreBid" where
  "plain_bid i b p = \<lparr>CoreBid = mk_bid i b p, EncryptedPrice = None\<rparr>"

definition sealed_price :: "bytes \<Rightarrow> EncryptedBidPrice" where
  "sealed_price payload =
     \<lparr>AESKeyEncrypted = EncryptedAESKey (toy_encrypted payload),
      EncryptedPayload' = EncryptedPayload (toy_encrypted payload),
      Nonce' = Nonce (toy_encrypted payload)\<rparr>"

definition sealed_bid :: "string \<Rightarrow> string \<Rightarrow> float64 \<Rightarrow> bytes \<Rightarrow> EncryptedCoreBid" where
  "sealed_bid i b p payload =
     \<lparr>CoreBid = mk_bid i b p, EncryptedPrice = Some (sealed_price payload)\<rparr>"

definition toy_parse :: "bytes \<Rightarrow> lib_error + DecryptedBidPayload" where
  "toy_parse plaintext =
     (if plaintext = ''price:-1.50'' then Inr \<lparr>Price' = Finite (-1.5), AuctionToken' = ''''\<rparr>
      else if plaintext = ''price:5.75'' then Inr \<lparr>Price' = Finite 5.75, AuctionToken' = ''''\<rparr>
      else Inl ''invalid character'')"

definition km_k :: "(char, char) KeyManager" where
  "km_k = \<lparr>PrivateKey = CHR ''k'', PublicKey = CHR ''k''\<rparr>"

definition km_other :: "(char, char) KeyManager" where
  "km_other = \<lparr>PrivateKey = CHR ''j'', PublicKey = CHR ''j''\<rparr>"

text \<open>The bid of the invalid-price test after decryption: its price is -1.50.\<close>

definition negative_bid :: DecryptedBid where
  "negative_bid = \<lparr>Bid = mk_bid ''bid1'' ''bidder1'' (Finite (-1.5)), Token = ''''\<rparr>"

section \<open>Properties of the token store\<close>

lemma ValidateToken_iff: "ValidateToken tm t = (t \<noteq> '''' \<and> t \<in> dom (tokens tm))"
  by (auto simp: ValidateToken_def syncmap_Load_def)

lemma tm_one_tokens:
  "tokens tm_one = [''tok-1'' \<mapsto> \<lparr>TokenID = ''tok-1'', CreatedAt = 0\<rparr>]"
  by (simp add: tm_one_def GenerateToken_def NewTokenManager_def syncmap_Store_def)

text \<open>
  C1. For every store and every identifier \<open>t\<close>, \<^verbatim>\<open>ValidateAndConsumeToken\<close> returns
  true exactly when \<open>t\<close> is not empty and is a key of the store; when it returns true the
  store it leaves is the old one without the entry of \<open>t\<close>; and a second call with the
  same \<open>t\<close> on the store it leaves returns false.
\<close>

theorem ValidateAndConsumeToken_consumes_once:
  "fst (ValidateAndConsumeToken tm t) = (t \<noteq> '''' \<and> t \<in> dom (tokens tm)) \<and>
   (fst (ValidateAndConsumeToken tm t) \<longrightarrow>
      tokens (snd (ValidateAndConsumeToken tm t)) = (tokens tm)(t := None) \<and>
      t \<notin> dom (tokens (snd (ValidateAndConsumeToken tm t)))) \<and>
   \<not> fst (ValidateAndConsumeToken (snd (ValidateAndConsumeToken tm t)) t)"
  by (auto simp: ValidateAndConsumeToken_def syncmap_LoadAndDelete_def)

theorem ValidateAndConsumeToken_consumes_once_witness:
  "fst (ValidateAndConsumeToken tm_one ''tok-1'') \<and>
   ''tok-1'' \<notin> dom (tokens (snd (ValidateAndConsumeToken tm_one ''tok-1''))) \<and>
   \<not> fst (ValidateAndConsumeToken (snd (ValidateAndConsumeToken tm_one ''tok-1'')) ''tok-1'')"
proof -
  have "fst (ValidateAndConsumeToken tm_one ''tok-1'')"
    by (simp add: ValidateAndConsumeToken_def syncmap_LoadAndDelete_def tm_one_tokens)
  with ValidateAndConsumeToken_consumes_once[of tm_one "''tok-1''"] show ?thesis
    by blast
qed

lemma ValidateAndConsumeToken_false_unchanged:
  "\<not> fst (ValidateAndConsumeToken tm t) \<Longrightarrow>
   tokens (snd (ValidateAndConsumeToken tm t)) = tokens tm"
  by (auto simp: ValidateAndConsumeToken_def syncmap_LoadAndDelete_def)

text \<open>
  C10. Called with the empty identifier, \<^verbatim>\<open>ValidateAndConsumeToken\<close> returns false and
  the manager it leaves is the one it was given, whatever that manager holds, an entry
  under the empty string included.
\<close>

theorem ValidateAndConsumeToken_empty:
  "ValidateAndConsumeToken tm '''' = (False, tm)"
  by (simp add: ValidateAndConsumeToken_def)

lemma empty_entry_is_kept:
  "tokens (snd (ValidateAndConsumeToken (tm\<lparr>tokens := (tokens tm)('''' \<mapsto> v)\<rparr>) ''''))
     '''' = Some v"
  by (simp add: ValidateAndConsumeToken_def)

subsection \<open>Concurrent callers racing for one token\<close>

lemma filter_update_count:
  "i < length xs \<Longrightarrow>
   length (filter P (xs[i := c])) + (if P (xs ! i) then 1 else 0) =
   length (filter P xs) + (if P c then 1 else 0)"
proof (induction xs arbitrary: i)
  case Nil
  then show ?case by simp
next
  case (Cons a xs)
  show ?case
  proof (cases i)
    case 0
    then show ?thesis by simp
  next
    case (Suc j)
    with Cons.prems have "j < length xs" by simp
    from Cons.IH[OF this] show ?thesis using Suc by simp
  qed
qed

lemma successes_update:
  "i < length cs \<Longrightarrow>
   successes (cs[i := c]) + (if cs ! i = Returned True then 1 else 0) =
   successes cs + (if c = Returned True then 1 else 0)"
  unfolding successes_def by (rule filter_update_count)

lemma failures_update:
  "i < length cs \<Longrightarrow>
   failures (cs[i := c]) + (if cs ! i = Returned False then 1 else 0) =
   failures cs + (if c = Returned False then 1 else 0)"
  unfolding failures_def by (rule filter_update_count)

text \<open>
  The second step of a caller, by what \<^const>\<open>ValidateAndConsumeToken\<close> returns on
  the store of that moment.
\<close>

lemma caller_step_Deleting:
  "caller_step t Deleting s =
     (Returned (fst (ValidateAndConsumeToken s t)), snd (ValidateAndConsumeToken s t))"
  by (simp add: caller_step_def split: prod.splits)

lemma consumed_store:
  "ValidateToken tm t \<Longrightarrow>
   snd (ValidateAndConsumeToken tm t) = tm\<lparr>tokens := (tokens tm)(t := None)\<rparr>"
  by (simp add: ValidateToken_iff ValidateAndConsumeToken_def syncmap_LoadAndDelete_def)

lemma race_inv_step:
  assumes "race_inv tm t n cfg" "ValidateToken tm t"
  shows "race_inv tm t n (sched_step t i cfg)"
proof -
  obtain cs s where cfg: "cfg = (cs, s)" by (cases cfg)
  show ?thesis
  proof (cases "i < length cs")
    case False
    then show ?thesis using assms cfg by (simp add: sched_step_def)
  next
    case True
    from assms(2) have t: "t \<noteq> ''''" "tokens tm t \<noteq> None"
      by (auto simp: ValidateToken_iff)
    have su: "successes (cs[i := c]) + (if cs ! i = Returned True then 1 else 0) =
        successes cs + (if c = Returned True then 1 else 0)" for c
      using successes_update True by simp
    have fu: "failures (cs[i := c]) + (if cs ! i = Returned False then 1 else 0) =
        failures cs + (if c = Returned False then 1 else 0)" for c
      using failures_update True by simp
    show ?thesis
    proof (cases "cs ! i")
      case Entered
      then show ?thesis using assms(1) t True cfg su[of Deleting] fu[of Deleting]
        by (auto simp: race_inv_def sched_step_def caller_step_def)
    next
      case Deleting
      then show ?thesis
        using assms(1) t True cfg su[of "Returned True"] fu[of "Returned True"]
          su[of "Returned False"] fu[of "Returned False"]
        by (auto simp: race_inv_def sched_step_def caller_step_Deleting
            ValidateAndConsumeToken_def syncmap_LoadAndDelete_def)
    next
      case (Returned r)
      then have "cs[i := Returned r] = cs" by (metis list_update_id)
      then show ?thesis using assms(1) True cfg Returned
        by (auto simp: race_inv_def sched_step_def caller_step_def)
    qed
  qed
qed

lemma race_inv_run:
  "race_inv tm t n cfg \<Longrightarrow> ValidateToken tm t \<Longrightarrow> race_inv tm t n (run_callers t sched cfg)"
  by (induction sched arbitrary: cfg) (simp_all add: race_inv_step)

lemma race_inv_init: "race_inv tm t n (replicate n Entered, tm)"
  by (simp add: race_inv_def successes_def failures_def)

lemma returned_split:
  "all_returned cs \<Longrightarrow> successes cs + failures cs = length cs"
  unfolding all_returned_def successes_def failures_def
proof (induction cs)
  case Nil
  then show ?case by simp
next
  case (Cons c cs)
  then show ?case by (cases c) auto
qed

text \<open>
  Every call is carried through: each step of a caller takes it one phase further until
  it has returned, so a schedule that gives every caller two steps leaves all of them
  returned.
\<close>

lemma sched_step_length: "length (fst (sched_step t j cfg)) = length (fst cfg)"
  by (cases cfg) (simp add: sched_step_def split: prod.splits)

lemma sched_step_phase:
  assumes "i < length (fst cfg)"
  shows "min 2 (phase (fst cfg ! i) + (if i = j then 1 else 0))
           \<le> phase (fst (sched_step t j cfg) ! i)"
proof -
  obtain cs s where cfg: "cfg = (cs, s)" by (cases cfg)
  show ?thesis
  proof (cases "j < length cs")
    case False
    then show ?thesis using assms cfg by (auto simp: sched_step_def)
  next
    case True
    then show ?thesis using assms cfg
      by (cases "cs ! j")
         (auto simp: sched_step_def caller_step_def phase_def nth_list_update
            split: prod.splits)
  qed
qed

lemma run_callers_length: "length (fst (run_callers t sched cfg)) = length (fst cfg)"
  by (induction sched arbitrary: cfg) (simp_all add: sched_step_length)

lemma run_callers_phase:
  "i < length (fst cfg) \<Longrightarrow>
   min 2 (phase (fst cfg ! i) + count_list sched i) \<le> phase (fst (run_callers t sched cfg) ! i)"
proof (induction sched arbitrary: cfg)
  case Nil
  then show ?case by simp
next
  case (Cons j sched)
  have len: "i < length (fst (sched_step t j cfg))"
    using Cons.prems by (simp add: sched_step_length)
  from Cons.IH[OF len] sched_step_phase[OF Cons.prems, of j t]
  show ?case by auto
qed

lemma run_callers_complete:
  assumes "complete_schedule n sched"
  shows "all_returned (fst (run_callers t sched (replicate n Entered, tm)))"
proof -
  let ?cs = "fst (run_callers t sched (replicate n Entered, tm))"
  have len: "length ?cs = n"
    by (simp add: run_callers_length)
  have "?cs ! i \<noteq> Entered \<and> ?cs ! i \<noteq> Deleting" if "i < n" for i
  proof -
    from assms that have "2 \<le> count_list sched i"
      by (simp add: complete_schedule_def list_all_iff)
    then have "2 \<le> phase (?cs ! i)"
      using run_callers_phase[of i "(replicate n Entered, tm)" sched t] that
      by auto
    then show ?thesis by (cases "?cs ! i") (simp_all add: phase_def)
  qed
  then have "\<forall>i<length ?cs. ?cs ! i \<noteq> Entered \<and> ?cs ! i \<noteq> Deleting"
    using len by simp
  then show ?thesis
    unfolding all_returned_def list_all_length by simp
qed

text \<open>
  C2. \<open>n\<close> callers (\<open>n > 0\<close>) run \<^verbatim>\<open>ValidateAndConsumeToken\<close> with the same identifier
  on a store that holds it (\<^verbatim>\<open>ValidateToken\<close> says so). Whatever the order of their
  steps, when each caller is given the two steps of its call all \<open>n\<close> callers return,
  exactly one of them returns true, the other \<open>n - 1\<close> return false, the count of the
  store has dropped by one, the token is gone, and the store they leave is the store that
  one call of \<^verbatim>\<open>ValidateAndConsumeToken\<close> leaves.
\<close>

theorem concurrent_same_token_one_winner:
  assumes "ValidateToken tm t" and "0 < n" and "finite (dom (tokens tm))"
    and "complete_schedule n sched"
  shows "all_returned (fst (run_callers t sched (replicate n Entered, tm))) \<and>
         length (fst (run_callers t sched (replicate n Entered, tm))) = n \<and>
         successes (fst (run_callers t sched (replicate n Entered, tm))) = 1 \<and>
         failures (fst (run_callers t sched (replicate n Entered, tm))) = n - 1 \<and>
         Count (snd (run_callers t sched (replicate n Entered, tm))) + 1 = Count tm \<and>
         \<not> ValidateToken (snd (run_callers t sched (replicate n Entered, tm))) t \<and>
         snd (run_callers t sched (replicate n Entered, tm)) =
           snd (ValidateAndConsumeToken tm t)"
proof -
  obtain cs' tm' where run: "run_callers t sched (replicate n Entered, tm) = (cs', tm')"
    by (cases "run_callers t sched (replicate n Entered, tm)")
  have ret: "all_returned cs'"
    using run_callers_complete[OF assms(4), of t tm] run by simp
  have inv: "race_inv tm t n (cs', tm')"
    using race_inv_run[OF race_inv_init assms(1), of n sched] run by simp
  have len: "length cs' = n" using inv by (simp add: race_inv_def)
  have tot: "successes cs' + failures cs' = n" using returned_split[OF ret] len by simp
  from assms(1) have t: "t \<in> dom (tokens tm)"
    by (simp add: ValidateToken_iff)
  from inv tot assms(2) have s: "successes cs' = 1"
    and tm': "tm' = tm\<lparr>tokens := (tokens tm)(t := None)\<rparr>"
    by (auto simp: race_inv_def)
  have "card (dom (tokens tm) - {t}) + 1 = card (dom (tokens tm))"
    using card_Suc_Diff1[OF assms(3) t] by simp
  then have "Count tm' + 1 = Count tm" by (simp add: Count_def tm')
  moreover have "\<not> ValidateToken tm' t"
    by (simp add: ValidateToken_iff tm')
  moreover have "tm' = snd (ValidateAndConsumeToken tm t)"
    using consumed_store[OF assms(1)] tm' by simp
  ultimately show ?thesis using ret len s tot run by simp
qed

theorem concurrent_same_token_one_winner_witness:
  "ValidateToken tm_one ''tok-1'' \<and> (0::nat) < 3 \<and> finite (dom (tokens tm_one)) \<and>
   complete_schedule 3 [0, 1, 2, 1, 0, 2] \<and>
   fst (run_callers ''tok-1'' [0, 1, 2, 1, 0, 2] (replicate 3 Entered, tm_one)) =
     [Returned False, Returned True, Returned False] \<and>
   all_returned (fst (run_callers ''tok-1'' [0, 1, 2, 1, 0, 2] (replicate 3 Entered, tm_one))) \<and>
   successes (fst (run_callers ''tok-1'' [0, 1, 2, 1, 0, 2] (replicate 3 Entered, tm_one))) = 1 \<and>
   failures (fst (run_callers ''tok-1'' [0, 1, 2, 1, 0, 2] (replicate 3 Entered, tm_one))) = 2 \<and>
   Count (snd (run_callers ''tok-1'' [0, 1, 2, 1, 0, 2] (replicate 3 Entered, tm_one))) + 1 =
     Count tm_one \<and>
   snd (run_callers ''tok-1'' [0, 1, 2, 1, 0, 2] (replicate 3 Entered, tm_one)) =
     snd (ValidateAndConsumeToken tm_one ''tok-1'')"
proof -
  define cfg where
    "cfg = run_callers ''tok-1'' [0, 1, 2, 1, 0, 2] (replicate 3 Entered, tm_one)"
  have v: "ValidateToken tm_one ''tok-1''"
    by (simp add: ValidateToken_iff tm_one_tokens)
  have p: "(0::nat) < 3"
    by simp
  have f: "finite (dom (tokens tm_one))"
    by (simp add: tm_one_tokens)
  have c: "complete_schedule 3 [0, 1, 2, 1, 0, 2]"
    by (simp add: complete_schedule_def numeral_3_eq_3)
  have r: "fst cfg = [Returned False, Returned True, Returned False]"
    unfolding cfg_def
    by (simp add: numeral_3_eq_3 sched_step_def caller_step_def ValidateAndConsumeToken_def
        syncmap_LoadAndDelete_def tm_one_tokens)
  note th = concurrent_same_token_one_winner[OF v p f c, folded cfg_def]
  from th have "failures (fst cfg) = 2"
    by simp
  with th v p f c r show ?thesis
    unfolding cfg_def[symmetric] by blast
qed

text \<open>
  The other stores and identifiers: when the store does not hold the identifier, or the
  identifier is empty, every caller returns false and the store is left as it was. A
  caller that runs alone computes what \<^const>\<open>ValidateAndConsumeToken\<close> does.
\<close>

lemma no_token_step:
  assumes "\<not> ValidateToken tm t" and "snd cfg = tm" and "successes (fst cfg) = 0"
  shows "snd (sched_step t i cfg) = tm \<and> successes (fst (sched_step t i cfg)) = 0"
proof -
  obtain cs s where cfg: "cfg = (cs, s)" by (cases cfg)
  show ?thesis
  proof (cases "i < length cs")
    case False
    then show ?thesis using assms cfg by (simp add: sched_step_def)
  next
    case True
    have su: "successes (cs[i := c]) + (if cs ! i = Returned True then 1 else 0) =
        successes cs + (if c = Returned True then 1 else 0)" for c
      using successes_update True by simp
    from assms(1) have vac: "ValidateAndConsumeToken tm t = (False, tm)"
      by (auto simp: ValidateToken_iff ValidateAndConsumeToken_def syncmap_LoadAndDelete_def
          fun_upd_idem)
    show ?thesis
    proof (cases "cs ! i")
      case Entered
      then show ?thesis
        using assms cfg True su[of Deleting] su[of "Returned False"]
        by (auto simp: sched_step_def caller_step_def)
    next
      case Deleting
      then show ?thesis
        using assms cfg True su[of "Returned False"] vac
        by (auto simp: sched_step_def caller_step_Deleting)
    next
      case (Returned r)
      then have "cs[i := Returned r] = cs" by (metis list_update_id)
      then show ?thesis using assms cfg True Returned
        by (auto simp: sched_step_def caller_step_def)
    qed
  qed
qed

lemma no_token_run:
  "\<not> ValidateToken tm t \<Longrightarrow> snd cfg = tm \<Longrightarrow> successes (fst cfg) = 0 \<Longrightarrow>
   snd (run_callers t sched cfg) = tm \<and> successes (fst (run_callers t sched cfg)) = 0"
proof (induction sched arbitrary: cfg)
  case Nil
  then show ?case by simp
next
  case (Cons i sched)
  from no_token_step[OF Cons.prems, of i] Cons.IH[OF Cons.prems(1), of "sched_step t i cfg"]
  show ?case by simp
qed

lemma concurrent_invalid_token_no_winner:
  assumes "\<not> ValidateToken tm t" and "complete_schedule n sched"
  shows "all_returned (fst (run_callers t sched (replicate n Entered, tm))) \<and>
         successes (fst (run_callers t sched (replicate n Entered, tm))) = 0 \<and>
         failures (fst (run_callers t sched (replicate n Entered, tm))) = n \<and>
         snd (run_callers t sched (replicate n Entered, tm)) = tm"
proof -
  let ?cfg = "run_callers t sched (replicate n Entered, tm)"
  have ret: "all_returned (fst ?cfg)"
    by (rule run_callers_complete[OF assms(2)])
  have len: "length (fst ?cfg) = n"
    by (simp add: run_callers_length)
  have nt: "snd ?cfg = tm \<and> successes (fst ?cfg) = 0"
    by (rule no_token_run[OF assms(1)]) (simp_all add: successes_def)
  from returned_split[OF ret] len nt show ?thesis using ret by simp
qed

lemma single_caller_is_ValidateAndConsumeToken:
  "run_callers t [0, 0] ([Entered], tm) =
     ([Returned (fst (ValidateAndConsumeToken tm t))], snd (ValidateAndConsumeToken tm t))"
  by (simp add: sched_step_def caller_step_def ValidateAndConsumeToken_def
      syncmap_LoadAndDelete_def)

text \<open>
  The single atomic operation is what the result rests on: two callers that check and
  remove in two calls can both succeed.
\<close>

lemma two_call_callers_both_win:
  "fst (run_two_call ''tok-1'' [0, 1, 0, 1] ([Arrived, Arrived], tm_one)) =
     [Left True, Left True]"
  by (simp add: two_call_step_def ValidateToken_iff ConsumeToken_def syncmap_Delete_def
      tm_one_tokens)

section \<open>Properties of the ranker\<close>

subsection \<open>Comparison of prices\<close>

lemma f64_gt_irrefl: "\<not> f64_gt x x"
  by (cases x) simp_all

lemma f64_gt_trans: "f64_gt x y \<Longrightarrow> f64_gt y z \<Longrightarrow> f64_gt x z"
  by (cases x; cases y; cases z) simp_all

lemma f64_gt_asym: "f64_gt x y \<Longrightarrow> \<not> f64_gt y x"
  by (cases x; cases y) simp_all

lemma f64_gt_negtrans:
  "y \<noteq> NaN \<Longrightarrow> \<not> f64_gt x y \<Longrightarrow> \<not> f64_gt y z \<Longrightarrow> \<not> f64_gt x z"
  by (cases x; cases y; cases z) simp_all

lemma f64_gt_total: "x \<noteq> NaN \<Longrightarrow> y \<noteq> NaN \<Longrightarrow> x \<noteq> y \<Longrightarrow> f64_gt x y \<or> f64_gt y x"
  by (cases x; cases y) auto

lemma f64_ge_iff: "x \<noteq> NaN \<Longrightarrow> y \<noteq> NaN \<Longrightarrow> f64_ge x y = (f64_gt x y \<or> x = y)"
  by (cases x; cases y) (auto simp: f64_ge_def)

lemma f64_gt_not_NaN: "f64_gt x y \<Longrightarrow> x \<noteq> NaN \<and> y \<noteq> NaN"
  by (cases x; cases y) simp_all

subsection \<open>The sort\<close>

lemma mset_insert_left: "mset (insert_left lt x rp) = add_mset x (mset rp)"
  by (induction rp) simp_all

lemma mset_insertion_sort_aux:
  "mset (foldl (\<lambda>rp x. insert_left lt x rp) acc xs) = mset acc + mset xs"
  by (induction xs arbitrary: acc) (simp_all add: mset_insert_left)

lemma mset_insertion_sort: "mset (insertion_sort lt xs) = mset xs"
  by (simp add: insertion_sort_def mset_insertion_sort_aux)

lemma set_insert_left: "set (insert_left lt x rp) = insert x (set rp)"
  by (induction rp) auto

lemma sorted_insert_left:
  assumes swo: "strict_weak_ordering_on A lt" and "x \<in> A" "set rp \<subseteq> A"
    and "sorted_wrt (\<lambda>a b. \<not> lt a b) rp"
  shows "sorted_wrt (\<lambda>a b. \<not> lt a b) (insert_left lt x rp)"
  using assms(3,4)
proof (induction rp)
  case Nil
  then show ?case by simp
next
  case (Cons y rp)
  have irr: "\<And>a. a \<in> A \<Longrightarrow> \<not> lt a a"
    and tr: "\<And>a b c. a \<in> A \<Longrightarrow> b \<in> A \<Longrightarrow> c \<in> A \<Longrightarrow> lt a b \<Longrightarrow> lt b c \<Longrightarrow> lt a c"
    and nt: "\<And>a b c. a \<in> A \<Longrightarrow> b \<in> A \<Longrightarrow> c \<in> A \<Longrightarrow> \<not> lt a b \<Longrightarrow> \<not> lt b c \<Longrightarrow> \<not> lt a c"
    using swo unfolding strict_weak_ordering_on_def by blast+
  have yA: "y \<in> A" and rpA: "set rp \<subseteq> A" using Cons.prems by auto
  show ?case
  proof (cases "lt x y")
    case True
    have "\<not> lt y x" using True irr tr assms(2) yA by blast
    moreover have "sorted_wrt (\<lambda>a b. \<not> lt a b) (insert_left lt x rp)"
      using Cons by simp
    ultimately show ?thesis using True Cons.prems by (auto simp: set_insert_left)
  next
    case False
    have "\<not> lt x z" if "z \<in> set rp" for z
    proof -
      have "\<not> lt y z" using Cons.prems that by auto
      with False show ?thesis using nt[of x y z] assms(2) yA rpA that by blast
    qed
    then show ?thesis using False Cons.prems by auto
  qed
qed

lemma sorted_insertion_sort_aux:
  assumes swo: "strict_weak_ordering_on A lt"
  shows "set acc \<subseteq> A \<Longrightarrow> set xs \<subseteq> A \<Longrightarrow> sorted_wrt (\<lambda>a b. \<not> lt a b) acc \<Longrightarrow>
         sorted_wrt (\<lambda>a b. \<not> lt a b) (foldl (\<lambda>rp x. insert_left lt x rp) acc xs)"
proof (induction xs arbitrary: acc)
  case Nil
  then show ?case by simp
next
  case (Cons x xs)
  have "sorted_wrt (\<lambda>a b. \<not> lt a b) (insert_left lt x acc)"
    using sorted_insert_left[OF swo _ Cons.prems(1) Cons.prems(3)] Cons.prems(2) by simp
  moreover have "set (insert_left lt x acc) \<subseteq> A"
    using Cons.prems by (simp add: set_insert_left)
  ultimately show ?case using Cons.IH[of "insert_left lt x acc"] Cons.prems(2) by simp
qed

lemma insertion_sort_contract: "sort_Slice_contract insertion_sort"
  unfolding sort_Slice_contract_def
proof (intro allI conjI impI)
  fix lt :: "'a \<Rightarrow> 'a \<Rightarrow> bool" and xs
  show "mset (insertion_sort lt xs) = mset xs" by (rule mset_insertion_sort)
  assume "strict_weak_ordering_on (set xs) lt"
  from sorted_insertion_sort_aux[OF this, of "[]" xs]
  show "sorted_wrt (\<lambda>a b. \<not> lt b a) (insertion_sort lt xs)"
    by (simp add: insertion_sort_def sorted_wrt_rev)
qed

subsection \<open>The first loop\<close>

lemma dom_group_bids: "dom (group_bids bids m) = dom m \<union> Bidder ` set bids"
  by (induction bids arbitrary: m) (auto split: option.splits if_splits)

lemma group_bids_lookup:
  "group_bids bids m b =
     (case m b of
        Some e \<Rightarrow> Some (keep_best e (filter (\<lambda>x. Bidder x = b) bids))
      | None \<Rightarrow> (case filter (\<lambda>x. Bidder x = b) bids of
                   [] \<Rightarrow> None
                 | y # ys \<Rightarrow> Some (keep_best y ys)))"
  by (induction bids arbitrary: m) (auto split: option.splits list.splits)

lemma f64_gt_ge_trans: "f64_gt x e \<Longrightarrow> f64_ge e z \<Longrightarrow> f64_gt x z"
  by (cases x; cases e; cases z) (simp_all add: f64_ge_def)

lemma keep_best_first_highest:
  assumes "Price e \<noteq> NaN" and "\<forall>x\<in>set xs. Price x \<noteq> NaN"
    and "list_all (\<lambda>y. f64_gt (Price e) (Price y)) ys0"
    and "list_all (\<lambda>z. f64_ge (Price e) (Price z)) zs0"
  shows "\<exists>ys zs. ys0 @ e # zs0 @ xs = ys @ keep_best e xs # zs \<and>
           list_all (\<lambda>y. f64_gt (Price (keep_best e xs)) (Price y)) ys \<and>
           list_all (\<lambda>z. f64_ge (Price (keep_best e xs)) (Price z)) zs"
  using assms
proof (induction xs arbitrary: e ys0 zs0)
  case Nil
  then show ?case by (intro exI[of _ ys0] exI[of _ zs0]) simp
next
  case (Cons x xs)
  have xn: "Price x \<noteq> NaN" and xsn: "\<forall>x\<in>set xs. Price x \<noteq> NaN"
    using Cons.prems(2) by auto
  show ?case
  proof (cases "f64_gt (Price x) (Price e)")
    case True
    have lower: "list_all (\<lambda>y. f64_gt (Price x) (Price y)) (ys0 @ e # zs0)"
      using True Cons.prems(3,4)
      by (auto simp: list_all_iff intro: f64_gt_trans f64_gt_ge_trans)
    from Cons.IH[OF xn xsn lower, of "[]"] True show ?thesis by simp
  next
    case False
    have "f64_ge (Price e) (Price x)"
      using False xn Cons.prems(1) by (simp add: f64_ge_def)
    then have later: "list_all (\<lambda>z. f64_ge (Price e) (Price z)) (zs0 @ [x])"
      using Cons.prems(4) by simp
    from Cons.IH[OF Cons.prems(1) xsn Cons.prems(3) later] False show ?thesis by simp
  qed
qed

lemma group_bids_first_highest:
  assumes "b \<in> Bidder ` set bids" and "\<forall>x\<in>set bids. Bidder x = b \<longrightarrow> Price x \<noteq> NaN"
  shows "\<exists>x. group_bids bids Map.empty b = Some x \<and>
              first_highest x (filter (\<lambda>x. Bidder x = b) bids)"
proof -
  let ?own = "filter (\<lambda>x. Bidder x = b) bids"
  from assms(1) have "?own \<noteq> []"
    by (auto simp: filter_empty_conv)
  then obtain y ys where f: "?own = y # ys"
    by (cases ?own) auto
  have "\<forall>x\<in>set ?own. Price x \<noteq> NaN"
    using assms(2) by simp
  then have n: "Price y \<noteq> NaN" "\<forall>x\<in>set ys. Price x \<noteq> NaN"
    unfolding f by simp_all
  have e: "list_all (\<lambda>z. f64_gt (Price y) (Price z)) []" "list_all (\<lambda>z. f64_ge (Price y) (Price z)) []"
    by simp_all
  from keep_best_first_highest[OF n e]
  have fh: "first_highest (keep_best y ys) (y # ys)"
    unfolding first_highest_def by simp
  have "group_bids bids Map.empty b = Some (keep_best y ys)"
    unfolding group_bids_lookup f by simp
  with fh show ?thesis unfolding f by blast
qed

subsection \<open>The second loop and the sort\<close>

lemma range_entries_eq:
  "set ks \<subseteq> dom m \<Longrightarrow> range_entries ks m = map (\<lambda>k. (k, the (m k))) ks"
  by (induction ks) (auto simp: range_entries_def map_filter_simps)

lemma range_entries_keys:
  "set ks \<subseteq> dom m \<Longrightarrow> map fst (range_entries ks m) = ks"
  by (simp add: range_entries_eq comp_def)

lemma range_entries_map_of:
  assumes "map_range_order m ks"
  shows "map_of (range_entries ks m) = m"
proof
  fix k
  have sub: "set ks \<subseteq> dom m" and all: "dom m \<subseteq> set ks"
    using assms by (auto simp: map_range_order_def)
  show "map_of (range_entries ks m) k = m k"
  proof (cases "k \<in> set ks")
    case True
    then have "map_of (map (\<lambda>k. (k, the (m k))) ks) k = Some (the (m k))"
      by (induction ks) auto
    moreover have "m k \<noteq> None" using True sub by auto
    ultimately show ?thesis by (simp add: range_entries_eq[OF sub])
  next
    case False
    moreover have "fst ` set (range_entries ks m) = set ks"
      using range_entries_keys[OF sub] by (metis set_map)
    ultimately have "map_of (range_entries ks m) k = None"
      by (simp add: map_of_eq_None_iff)
    moreover have "m k = None" using False all by auto
    ultimately show ?thesis by simp
  qed
qed

text \<open>What the sort leaves: the same keys, still distinct, and the same map.\<close>

lemma sorted_entries_facts:
  assumes c: "sort_Slice_contract srt" and o: "map_range_order m ks"
  shows "distinct (map fst (srt lt (range_entries ks m)))"
    and "set (map fst (srt lt (range_entries ks m))) = dom m"
    and "map_of (srt lt (range_entries ks m)) = m"
    and "length (srt lt (range_entries ks m)) = card (dom m)"
proof -
  let ?es = "range_entries ks m" and ?ss = "srt lt (range_entries ks m)"
  have sub: "set ks \<subseteq> dom m" and d: "distinct ks" and s: "set ks = dom m"
    using o by (auto simp: map_range_order_def)
  have ms: "mset ?ss = mset ?es" using c by (simp add: sort_Slice_contract_def)
  then have mk: "mset (map fst ?ss) = mset ks"
    using range_entries_keys[OF sub] by (metis mset_map)
  show dk: "distinct (map fst ?ss)"
    using mk d by (metis mset_eq_imp_distinct_iff)
  show sk: "set (map fst ?ss) = dom m"
    using mk s by (metis set_mset_mset)
  have "distinct (map fst ?es)" using d by (simp add: range_entries_keys[OF sub])
  moreover have "set ?ss = set ?es" using ms by (metis set_mset_mset)
  ultimately have "map_of ?ss = map_of ?es"
    using dk by (intro map_of_inject_set[THEN iffD2]) auto
  then show "map_of ?ss = m" by (simp add: range_entries_map_of[OF o])
  have "length ?ss = length ks"
    using mk by (metis length_map size_mset)
  then show "length ?ss = card (dom m)"
    using d s by (metis distinct_card)
qed

subsection \<open>The third loop\<close>

lemma assign_ranks_SortedBidders:
  "rank + length es \<le> length (SortedBidders r) \<Longrightarrow>
   SortedBidders (assign_ranks rank es r) =
     take rank (SortedBidders r) @ map fst es @ drop (rank + length es) (SortedBidders r)"
proof (induction es arbitrary: rank r)
  case Nil
  then show ?case by simp
next
  case (Cons e es)
  let ?r = "r\<lparr>Ranks := (Ranks r)(fst e \<mapsto> rank + 1),
               HighestBids := (HighestBids r)(fst e \<mapsto> snd e),
               SortedBidders := (SortedBidders r)[rank := fst e]\<rparr>"
  have lt: "rank < length (SortedBidders r)" using Cons.prems by simp
  have "SortedBidders (assign_ranks (rank + 1) es ?r) =
     take (rank + 1) (SortedBidders ?r) @ map fst es @
       drop (rank + 1 + length es) (SortedBidders ?r)"
    using Cons.prems by (intro Cons.IH) simp
  moreover have "take (rank + 1) (SortedBidders ?r) = take rank (SortedBidders r) @ [fst e]"
    using lt by (simp add: take_Suc_conv_app_nth)
  moreover have "drop (rank + 1 + length es) (SortedBidders ?r) =
      drop (rank + length (e # es)) (SortedBidders r)"
    by simp
  ultimately show ?case by simp
qed

lemma assign_ranks_HighestBids:
  "distinct (map fst es) \<Longrightarrow>
   HighestBids (assign_ranks rank es r) = HighestBids r ++ map_of es"
proof (induction es arbitrary: rank r)
  case Nil
  then show ?case by simp
next
  case (Cons e es)
  have "fst e \<notin> dom (map_of es)" using Cons.prems by (simp add: dom_map_of_conv_image_fst)
  then have l: "(HighestBids r)(fst e \<mapsto> snd e) ++ map_of es =
      (HighestBids r ++ map_of es)(fst e \<mapsto> snd e)"
    by (metis map_add_upd_left)
  have m: "map_of (e # es) = (map_of es)(fst e \<mapsto> snd e)"
    by (cases e) simp
  have "HighestBids (assign_ranks rank (e # es) r) =
      (HighestBids r)(fst e \<mapsto> snd e) ++ map_of es"
    using Cons by simp
  also have "\<dots> = HighestBids r ++ map_of (e # es)"
    unfolding l m by (simp only: map_add_upd)
  finally show ?case .
qed

lemma assign_ranks_Ranks:
  "distinct (map fst es) \<Longrightarrow>
   Ranks (assign_ranks rank es r) =
     Ranks r ++ map_of (zip (map fst es) [Suc rank ..< Suc rank + length es])"
proof (induction es arbitrary: rank r)
  case Nil
  then show ?case by simp
next
  case (Cons e es)
  let ?z = "zip (map fst es) [Suc (Suc rank) ..< Suc (Suc rank) + length es]"
  have "fst e \<notin> dom (map_of ?z)"
    using Cons.prems by (auto simp: dom_map_of_conv_image_fst dest: set_zip_leftD)
  then have "(Ranks r)(fst e \<mapsto> Suc rank) ++ map_of ?z =
      (Ranks r ++ map_of ?z)(fst e \<mapsto> Suc rank)"
    by (metis map_add_upd_left)
  moreover have "[Suc rank ..< Suc rank + length (e # es)] =
      Suc rank # [Suc (Suc rank) ..< Suc (Suc rank) + length es]"
    by (simp add: upt_rec)
  moreover have "map_of ((fst e, Suc rank) # ?z) = (map_of ?z)(fst e \<mapsto> Suc rank)"
    by simp
  moreover have "Ranks (assign_ranks rank (e # es) r) = (Ranks r)(fst e \<mapsto> Suc rank) ++ map_of ?z"
    using Cons by simp
  ultimately show ?case by (simp only: map_add_upd list.map zip_Cons_Cons)
qed

subsection \<open>The result of RankCoreBids\<close>

lemma sort_Slice_Nil: "sort_Slice_contract srt \<Longrightarrow> srt lt [] = []"
  by (metis mset_zero_iff sort_Slice_contract_def)

lemma RankCoreBids_fields:
  assumes c: "sort_Slice_contract srt" and o: "map_range_order (group_bids bids Map.empty) ks"
  shows "SortedBidders (RankCoreBids srt ks bids) =
           map fst (srt entry_less (range_entries ks (group_bids bids Map.empty)))"
    and "HighestBids (RankCoreBids srt ks bids) = group_bids bids Map.empty"
    and "Ranks (RankCoreBids srt ks bids) =
           map_of (zip (map fst (srt entry_less (range_entries ks (group_bids bids Map.empty))))
                       [1 ..< Suc (card (Bidder ` set bids))])"
proof -
  let ?m = "group_bids bids Map.empty"
  let ?es = "srt entry_less (range_entries ks ?m)"
  note f = sorted_entries_facts[OF c o, of entry_less]
  have n: "length ?es = card (Bidder ` set bids)"
    using f(4) by (simp add: dom_group_bids)
  show "SortedBidders (RankCoreBids srt ks bids) = map fst ?es"
  proof (cases "bids = []")
    case True
    then have "ks = []" using o by (simp add: map_range_order_def)
    then show ?thesis using True sort_Slice_Nil[OF c]
      by (simp add: RankCoreBids_def range_entries_def map_filter_simps)
  next
    case False
    then show ?thesis
      by (simp add: RankCoreBids_def Let_def assign_ranks_SortedBidders)
  qed
  show "HighestBids (RankCoreBids srt ks bids) = ?m"
  proof (cases "bids = []")
    case True
    then show ?thesis by (simp add: RankCoreBids_def)
  next
    case False
    then show ?thesis
      using f(1,3) by (simp add: RankCoreBids_def Let_def assign_ranks_HighestBids)
  qed
  show "Ranks (RankCoreBids srt ks bids) =
      map_of (zip (map fst ?es) [1 ..< Suc (card (Bidder ` set bids))])"
  proof (cases "bids = []")
    case True
    then show ?thesis by (simp add: RankCoreBids_def)
  next
    case False
    have "Ranks (RankCoreBids srt ks bids) =
        Map.empty ++ map_of (zip (map fst ?es) [Suc 0 ..< Suc 0 + length ?es])"
      using False f(1) by (simp add: RankCoreBids_def Let_def assign_ranks_Ranks)
    then show ?thesis using n by simp
  qed
qed

lemma group_bids_member:
  "group_bids bids m b = Some x \<Longrightarrow> x \<in> set bids \<or> m b = Some x"
proof (induction bids arbitrary: m)
  case Nil
  then show ?case by simp
next
  case (Cons a bids)
  from Cons.IH[OF Cons.prems[simplified]] show ?case
    by (auto split: option.splits if_splits)
qed

lemma map_of_entry:
  "distinct (map fst es) \<Longrightarrow> e \<in> set es \<Longrightarrow> map_of es (fst e) = Some (snd e)"
  by (metis map_of_is_SomeI prod.collapse)

lemma map_filter_total:
  "(\<And>x. x \<in> set xs \<Longrightarrow> g x = Some (h x)) \<Longrightarrow> List.map_filter g xs = map h xs"
  by (induction xs) (simp_all add: map_filter_simps)

lemma map_filter_of_map:
  "List.map_filter g (map f xs) = List.map_filter (\<lambda>x. g (f x)) xs"
  by (induction xs) (simp_all add: map_filter_simps split: option.splits)

lemma retained_prices_eq:
  assumes c: "sort_Slice_contract srt" and o: "map_range_order (group_bids bids Map.empty) ks"
  shows "retained_prices (RankCoreBids srt ks bids) =
           map (\<lambda>e. Price (snd e)) (srt entry_less (range_entries ks (group_bids bids Map.empty)))"
proof -
  let ?m = "group_bids bids Map.empty"
  let ?es = "srt entry_less (range_entries ks ?m)"
  note f = sorted_entries_facts[OF c o, of entry_less]
  have look: "?m (fst e) = Some (snd e)" if "e \<in> set ?es" for e
  proof -
    have "map_of ?es (fst e) = Some (snd e)"
      using that f(1) by (rule map_of_entry[rotated])
    then show ?thesis by (simp only: f(3))
  qed
  have "retained_prices (RankCoreBids srt ks bids) =
      List.map_filter (\<lambda>e. map_option Price (?m (fst e))) ?es"
    by (simp add: retained_prices_def RankCoreBids_fields[OF c o] map_filter_of_map)
  also have "\<dots> = map (\<lambda>e. Price (snd e)) ?es"
    by (rule map_filter_total) (simp add: look)
  finally show ?thesis .
qed

lemma entry_less_swo:
  assumes "\<forall>e\<in>A. Price (snd e) \<noteq> NaN"
  shows "strict_weak_ordering_on A entry_less"
  unfolding strict_weak_ordering_on_def entry_less_def
proof (intro conjI ballI impI)
  fix a show "\<not> f64_gt (Price (snd a)) (Price (snd a))" by (rule f64_gt_irrefl)
next
  fix a b c
  assume "f64_gt (Price (snd a)) (Price (snd b))" "f64_gt (Price (snd b)) (Price (snd c))"
  then show "f64_gt (Price (snd a)) (Price (snd c))" by (rule f64_gt_trans)
next
  fix a b c
  assume "b \<in> A" "\<not> f64_gt (Price (snd a)) (Price (snd b))"
    "\<not> f64_gt (Price (snd b)) (Price (snd c))"
  then show "\<not> f64_gt (Price (snd a)) (Price (snd c))"
    using assms f64_gt_negtrans by blast
qed

lemma sorted_entries_prices:
  assumes c: "sort_Slice_contract srt" and o: "map_range_order (group_bids bids Map.empty) ks"
    and nn: "\<forall>x\<in>set bids. Price x \<noteq> NaN"
  shows "\<forall>e\<in>set (srt entry_less (range_entries ks (group_bids bids Map.empty))).
           Price (snd e) \<noteq> NaN"
    and "sorted_wrt (\<lambda>a b. \<not> entry_less b a)
           (srt entry_less (range_entries ks (group_bids bids Map.empty)))"
proof -
  let ?m = "group_bids bids Map.empty"
  let ?en = "range_entries ks ?m"
  let ?es = "srt entry_less ?en"
  note f = sorted_entries_facts[OF c o, of entry_less]
  have inb: "snd e \<in> set bids" if "e \<in> set ?es" for e
  proof -
    have "map_of ?es (fst e) = Some (snd e)"
      using that f(1) by (rule map_of_entry[rotated])
    then have "?m (fst e) = Some (snd e)" by (simp only: f(3))
    from group_bids_member[OF this] show ?thesis by simp
  qed
  then show nan: "\<forall>e\<in>set ?es. Price (snd e) \<noteq> NaN" using nn by blast
  have "set ?es = set ?en"
    using c by (metis sort_Slice_contract_def set_mset_mset)
  then have "strict_weak_ordering_on (set ?en) entry_less"
    using nan by (intro entry_less_swo) simp
  then show "sorted_wrt (\<lambda>a b. \<not> entry_less b a) ?es"
    using c by (simp add: sort_Slice_contract_def)
qed

subsection \<open>Sizes, ranks and order\<close>

text \<open>
  C3 (amended). For every list of bids, every order in which the runtime may range over
  the map and every sort that keeps the contract of \<^verbatim>\<open>sort.Slice\<close>: \<^verbatim>\<open>Ranks\<close>,
  \<^verbatim>\<open>HighestBids\<close> and \<^verbatim>\<open>SortedBidders\<close> each have as many entries as the bids have
  distinct bidders, namely one per bidder; the ranks of the bidders of \<^verbatim>\<open>SortedBidders\<close>,
  read in that order, are 1, 2, ..., N, so the rank of a bidder is one more than its index
  and the ranks are a permutation of 1..N; and when no bid has the price NaN the retained
  prices along \<^verbatim>\<open>SortedBidders\<close> never increase.
\<close>

theorem RankCoreBids_ranks_every_bidder:
  fixes srt ks bids
  defines "r \<equiv> RankCoreBids srt ks bids" and "n \<equiv> card (Bidder ` set bids)"
  assumes c: "sort_Slice_contract srt" and o: "map_range_order (group_bids bids Map.empty) ks"
  shows "card (dom (Ranks r)) = n \<and> card (dom (HighestBids r)) = n \<and>
         length (SortedBidders r) = n \<and>
         dom (Ranks r) = Bidder ` set bids \<and> dom (HighestBids r) = Bidder ` set bids \<and>
         set (SortedBidders r) = Bidder ` set bids \<and> distinct (SortedBidders r) \<and>
         map (Ranks r) (SortedBidders r) = map Some [1 ..< Suc n] \<and>
         ran (Ranks r) = {1 .. n} \<and>
         length (retained_prices r) = n \<and>
         ((\<forall>x\<in>set bids. Price x \<noteq> NaN) \<longrightarrow> sorted_wrt f64_ge (retained_prices r))"
proof -
  let ?m = "group_bids bids Map.empty"
  let ?es = "srt entry_less (range_entries ks ?m)"
  note f = sorted_entries_facts[OF c o, of entry_less]
  note g = RankCoreBids_fields[OF c o]
  have dm: "dom ?m = Bidder ` set bids" by (simp add: dom_group_bids)
  define xs where "xs = map fst ?es"
  define ys where "ys = [1 ..< Suc n]"
  have len: "length xs = n" using f(4) by (simp add: dm n_def xs_def)
  have l2: "length xs = length ys" using len by (simp add: ys_def)
  have dx: "distinct xs" and sx: "set xs = Bidder ` set bids"
    using f(1,2) dm by (simp_all add: xs_def)
  have sb: "SortedBidders r = xs" by (simp add: r_def g(1) xs_def)
  have hb: "HighestBids r = ?m" by (simp add: r_def g(2))
  have rk: "Ranks r = map_of (zip xs ys)" by (simp add: r_def n_def g(3) xs_def ys_def)
  have sset: "set (SortedBidders r) = Bidder ` set bids" using sx sb by simp
  have sdist: "distinct (SortedBidders r)" using dx sb by simp
  have rdom: "dom (Ranks r) = Bidder ` set bids"
    unfolding rk using dom_map_of_zip[OF l2] sx by simp
  have "map (Ranks r) xs = map Some ys"
  proof (rule nth_equalityI)
    show "length (map (Ranks r) xs) = length (map Some ys)"
      using l2 by simp
    fix i assume "i < length (map (Ranks r) xs)"
    then have i: "i < length ys" using l2 by simp
    from map_of_zip_nth[OF l2 dx i]
    show "map (Ranks r) xs ! i = map Some ys ! i"
      using i l2 unfolding rk by simp
  qed
  then have rmap: "map (Ranks r) (SortedBidders r) = map Some [1 ..< Suc n]"
    by (simp only: sb ys_def)
  have "ran (Ranks r) = set ys"
    unfolding rk using ran_map_of_zip[OF l2 dx] .
  then have rran: "ran (Ranks r) = {1 .. n}"
    unfolding ys_def by auto
  have rp: "retained_prices r = map (\<lambda>e. Price (snd e)) ?es"
    by (simp add: r_def retained_prices_eq[OF c o])
  have srt: "sorted_wrt f64_ge (retained_prices r)" if nn: "\<forall>x\<in>set bids. Price x \<noteq> NaN"
  proof -
    note p = sorted_entries_prices[OF c o nn]
    have "sorted_wrt (\<lambda>a b. f64_ge (Price (snd a)) (Price (snd b))) ?es"
      using p(2)
    proof (rule sorted_wrt_mono_rel[rotated])
      fix a b assume "a \<in> set ?es" "b \<in> set ?es" "\<not> entry_less b a"
      then show "f64_ge (Price (snd a)) (Price (snd b))"
        using p(1) by (simp add: f64_ge_def entry_less_def)
    qed
    then show ?thesis by (simp add: rp sorted_wrt_map)
  qed
  have "card (dom (Ranks r)) = n" "card (dom (HighestBids r)) = n"
    by (simp_all add: rdom hb dm n_def)
  moreover have "length (SortedBidders r) = n" "length (retained_prices r) = n"
    using len by (simp_all add: sb rp xs_def)
  ultimately show ?thesis
    using rdom hb dm sset sdist rmap rran srt by simp
qed

lemmas rank_eval =
  RankCoreBids_def range_entries_def map_filter_simps insertion_sort_def entry_less_def
  mk_bid_def retained_prices_def Let_def

lemma bids_abc_order:
  "map_range_order (group_bids bids_abc Map.empty) [''bidder_a'', ''bidder_b'', ''bidder_c'']"
  by (auto simp: map_range_order_def dom_group_bids bids_abc_def mk_bid_def)

lemma bids_abc_result:
  "SortedBidders (RankCoreBids insertion_sort [''bidder_a'', ''bidder_b'', ''bidder_c''] bids_abc) =
     [''bidder_c'', ''bidder_a'', ''bidder_b'']"
  "retained_prices (RankCoreBids insertion_sort [''bidder_a'', ''bidder_b'', ''bidder_c''] bids_abc) =
     [Finite 2.75, Finite 2.5, Finite 2.25]"
  by (simp_all add: rank_eval bids_abc_def)

theorem RankCoreBids_ranks_every_bidder_witness:
  "sort_Slice_contract
     (insertion_sort :: (BidEntry \<Rightarrow> BidEntry \<Rightarrow> bool) \<Rightarrow> BidEntry list \<Rightarrow> BidEntry list) \<and>
   map_range_order (group_bids bids_abc Map.empty) [''bidder_a'', ''bidder_b'', ''bidder_c''] \<and>
   list_all (\<lambda>x. Price x \<noteq> NaN) bids_abc \<and>
   length (SortedBidders
     (RankCoreBids insertion_sort [''bidder_a'', ''bidder_b'', ''bidder_c''] bids_abc)) = 3 \<and>
   map (Ranks (RankCoreBids insertion_sort [''bidder_a'', ''bidder_b'', ''bidder_c''] bids_abc))
     [''bidder_c'', ''bidder_a'', ''bidder_b''] = [Some 1, Some 2, Some 3] \<and>
   sorted_wrt f64_ge (retained_prices
     (RankCoreBids insertion_sort [''bidder_a'', ''bidder_b'', ''bidder_c''] bids_abc))"
proof -
  have n: "\<forall>x\<in>set bids_abc. Price x \<noteq> NaN"
    by (simp add: bids_abc_def mk_bid_def)
  have k: "card (Bidder ` set bids_abc) = 3"
    by (simp add: bids_abc_def mk_bid_def)
  have u: "[1 ..< Suc 3] = [1, 2, 3::nat]"
    by (simp add: upt_rec)
  from RankCoreBids_ranks_every_bidder[OF insertion_sort_contract bids_abc_order] n
  show ?thesis
    unfolding k u bids_abc_result(1)
    by (simp add: insertion_sort_contract bids_abc_order list_all_iff)
qed

text \<open>
  Not for every list of bids, as C3 was stated: with a NaN among the prices the three
  bidders below come out in the order of the range, with the prices 1, NaN, 2.
\<close>

lemma bids_nan3_order:
  "map_range_order (group_bids bids_nan3 Map.empty) [''a'', ''b'', ''c'']"
  by (auto simp: map_range_order_def dom_group_bids bids_nan3_def mk_bid_def)

lemma bids_nan3_result:
  "SortedBidders (RankCoreBids insertion_sort [''a'', ''b'', ''c''] bids_nan3) = [''a'', ''b'', ''c'']"
  "retained_prices (RankCoreBids insertion_sort [''a'', ''b'', ''c''] bids_nan3) =
     [Finite 1, NaN, Finite 2]"
  by (simp_all add: rank_eval bids_nan3_def)

theorem RankCoreBids_NaN_breaks_order:
  "sort_Slice_contract
     (insertion_sort :: (BidEntry \<Rightarrow> BidEntry \<Rightarrow> bool) \<Rightarrow> BidEntry list \<Rightarrow> BidEntry list) \<and>
   map_range_order (group_bids bids_nan3 Map.empty) [''a'', ''b'', ''c''] \<and>
   bids_nan3 \<noteq> [] \<and>
   SortedBidders (RankCoreBids insertion_sort [''a'', ''b'', ''c''] bids_nan3) =
     [''a'', ''b'', ''c''] \<and>
   retained_prices (RankCoreBids insertion_sort [''a'', ''b'', ''c''] bids_nan3) =
     [Finite 1, NaN, Finite 2] \<and>
   f64_gt (Finite 2) (Finite 1) \<and>
   \<not> sorted_wrt f64_ge
       (retained_prices (RankCoreBids insertion_sort [''a'', ''b'', ''c''] bids_nan3))"
proof -
  have n: "bids_nan3 \<noteq> []" by (simp add: bids_nan3_def)
  have g: "f64_gt (Finite 2) (Finite 1)" by simp
  have s: "\<not> sorted_wrt f64_ge
       (retained_prices (RankCoreBids insertion_sort [''a'', ''b'', ''c''] bids_nan3))"
    unfolding bids_nan3_result by (simp add: f64_ge_def)
  show ?thesis
    by (intro conjI insertion_sort_contract bids_nan3_order n g s bids_nan3_result)
qed

subsection \<open>The bid retained for a bidder\<close>

lemma first_highest_mem: "first_highest x xs \<Longrightarrow> x \<in> set xs"
  unfolding first_highest_def by auto

lemma first_highest_max:
  assumes "first_highest x xs" and "Price x \<noteq> NaN"
  shows "x \<in> set xs" and "\<forall>y\<in>set xs. f64_ge (Price x) (Price y)"
proof -
  from assms(1) obtain ys zs where s: "xs = ys @ x # zs"
    and l: "list_all (\<lambda>y. f64_gt (Price x) (Price y)) ys"
    and g: "list_all (\<lambda>z. f64_ge (Price x) (Price z)) zs"
    unfolding first_highest_def by blast
  show "x \<in> set xs" by (simp add: s)
  have "f64_ge (Price x) (Price y)" if "y \<in> set ys" for y
  proof -
    have "f64_gt (Price x) (Price y)" using l that by (simp add: list_all_iff)
    then show ?thesis
      using f64_gt_not_NaN f64_gt_asym by (auto simp: f64_ge_def)
  qed
  moreover have "f64_ge (Price x) (Price x)"
    using assms(2) by (simp add: f64_ge_def f64_gt_irrefl)
  ultimately show "\<forall>y\<in>set xs. f64_ge (Price x) (Price y)"
    using g by (auto simp: s list_all_iff)
qed

lemma first_highest_not_NaN:
  assumes "first_highest x xs" and "xs \<noteq> [x]"
  shows "Price x \<noteq> NaN"
proof -
  from assms(1) obtain ys zs where s: "xs = ys @ x # zs"
    and l: "list_all (\<lambda>y. f64_gt (Price x) (Price y)) ys"
    and g: "list_all (\<lambda>z. f64_ge (Price x) (Price z)) zs"
    unfolding first_highest_def by blast
  from assms(2) s have "ys \<noteq> [] \<or> zs \<noteq> []" by auto
  then show ?thesis
  proof
    assume "ys \<noteq> []"
    then obtain y where "y \<in> set ys" by (cases ys) auto
    then have "f64_gt (Price x) (Price y)" using l by (simp add: list_all_iff)
    then show ?thesis using f64_gt_not_NaN by blast
  next
    assume "zs \<noteq> []"
    then obtain z where "z \<in> set zs" by (cases zs) auto
    then have "f64_ge (Price x) (Price z)" using g by (simp add: list_all_iff)
    then show ?thesis by (simp add: f64_ge_def)
  qed
qed

text \<open>
  C4 (amended). For every list of bids and every bidder \<open>b\<close> in it none of whose bids has
  the price NaN, \<^verbatim>\<open>HighestBids[b]\<close> is a bid of \<open>b\<close> from the list whose price is at
  least the price of every bid of \<open>b\<close>, and it is the first such bid: among the bids of
  \<open>b\<close> in input order, every bid before it has a strictly lower price.
\<close>

theorem RankCoreBids_retains_first_highest:
  assumes c: "sort_Slice_contract srt" and o: "map_range_order (group_bids bids Map.empty) ks"
    and b: "b \<in> Bidder ` set bids"
    and nn: "\<forall>x\<in>set bids. Bidder x = b \<longrightarrow> Price x \<noteq> NaN"
  shows "\<exists>x. HighestBids (RankCoreBids srt ks bids) b = Some x \<and>
              x \<in> set bids \<and> Bidder x = b \<and>
              (\<forall>y\<in>set bids. Bidder y = b \<longrightarrow> f64_ge (Price x) (Price y)) \<and>
              first_highest x (filter (\<lambda>y. Bidder y = b) bids)"
proof -
  from group_bids_first_highest[OF b nn] obtain x
    where x: "group_bids bids Map.empty b = Some x"
      and fh: "first_highest x (filter (\<lambda>y. Bidder y = b) bids)"
    by blast
  from fh have "x \<in> set (filter (\<lambda>y. Bidder y = b) bids)"
    by (rule first_highest_mem)
  then have xin: "x \<in> set bids" and xb: "Bidder x = b" by simp_all
  then have "Price x \<noteq> NaN" using nn by blast
  from first_highest_max(2)[OF fh this]
  have "\<forall>y\<in>set bids. Bidder y = b \<longrightarrow> f64_ge (Price x) (Price y)" by simp
  with x fh xin xb show ?thesis
    by (simp add: RankCoreBids_fields(2)[OF c o])
qed

lemma bids_repeat_order:
  "map_range_order (group_bids bids_repeat Map.empty) [''b'', ''a'']"
  by (auto simp: map_range_order_def dom_group_bids bids_repeat_def mk_bid_def)

theorem RankCoreBids_retains_first_highest_witness:
  "sort_Slice_contract
     (insertion_sort :: (BidEntry \<Rightarrow> BidEntry \<Rightarrow> bool) \<Rightarrow> BidEntry list \<Rightarrow> BidEntry list) \<and>
   map_range_order (group_bids bids_repeat Map.empty) [''b'', ''a''] \<and>
   ''b'' \<in> Bidder ` set bids_repeat \<and>
   list_all (\<lambda>x. Price x \<noteq> NaN) bids_repeat \<and>
   HighestBids (RankCoreBids insertion_sort [''b'', ''a''] bids_repeat) ''b'' =
     Some (mk_bid ''r2'' ''b'' (Finite 5)) \<and>
   first_highest (mk_bid ''r2'' ''b'' (Finite 5)) (filter (\<lambda>y. Bidder y = ''b'') bids_repeat)"
proof -
  have b: "''b'' \<in> Bidder ` set bids_repeat"
    by (simp add: bids_repeat_def mk_bid_def)
  have n: "\<forall>x\<in>set bids_repeat. Bidder x = ''b'' \<longrightarrow> Price x \<noteq> NaN"
    by (simp add: bids_repeat_def mk_bid_def)
  have h: "HighestBids (RankCoreBids insertion_sort [''b'', ''a''] bids_repeat) ''b'' =
     Some (mk_bid ''r2'' ''b'' (Finite 5))"
    by (simp add: rank_eval bids_repeat_def)
  from RankCoreBids_retains_first_highest[OF insertion_sort_contract bids_repeat_order b n]
  have "first_highest (mk_bid ''r2'' ''b'' (Finite 5))
      (filter (\<lambda>y. Bidder y = ''b'') bids_repeat)"
    unfolding h by simp
  then show ?thesis
    using h b by (simp add: insertion_sort_contract bids_repeat_order)
       (simp add: bids_repeat_def mk_bid_def)
qed

text \<open>
  Not for every list of bids, as C4 was stated: a bidder whose first bid has the price
  NaN keeps that bid, whatever comes later.
\<close>

lemma bids_nan_order: "map_range_order (group_bids bids_nan Map.empty) [''b'']"
  by (auto simp: map_range_order_def dom_group_bids bids_nan_def mk_bid_def)

theorem RankCoreBids_NaN_first_is_retained:
  "sort_Slice_contract
     (insertion_sort :: (BidEntry \<Rightarrow> BidEntry \<Rightarrow> bool) \<Rightarrow> BidEntry list \<Rightarrow> BidEntry list) \<and>
   map_range_order (group_bids bids_nan Map.empty) [''b''] \<and>
   ''b'' \<in> Bidder ` set bids_nan \<and>
   HighestBids (RankCoreBids insertion_sort [''b''] bids_nan) ''b'' =
     Some (mk_bid ''n1'' ''b'' NaN) \<and>
   mk_bid ''n2'' ''b'' (Finite 5) \<in> set bids_nan \<and>
   \<not> f64_ge (Price (mk_bid ''n1'' ''b'' NaN)) (Price (mk_bid ''n2'' ''b'' (Finite 5))) \<and>
   \<not> first_highest (mk_bid ''n1'' ''b'' NaN) (filter (\<lambda>y. Bidder y = ''b'') bids_nan)"
proof -
  have h: "HighestBids (RankCoreBids insertion_sort [''b''] bids_nan) ''b'' =
     Some (mk_bid ''n1'' ''b'' NaN)"
    by (simp add: rank_eval bids_nan_def)
  have "\<not> first_highest (mk_bid ''n1'' ''b'' NaN) (filter (\<lambda>y. Bidder y = ''b'') bids_nan)"
  proof
    assume "first_highest (mk_bid ''n1'' ''b'' NaN) (filter (\<lambda>y. Bidder y = ''b'') bids_nan)"
    from first_highest_not_NaN[OF this] show False
      by (simp add: bids_nan_def mk_bid_def)
  qed
  then show ?thesis
    using h by (simp add: insertion_sort_contract bids_nan_order)
       (simp add: bids_nan_def mk_bid_def f64_ge_def)
qed

subsection \<open>Determinism\<close>

lemma sorted_wrt_unique:
  assumes asym: "\<And>a b. R a b \<Longrightarrow> \<not> R b a"
  shows "sorted_wrt R xs \<Longrightarrow> sorted_wrt R ys \<Longrightarrow> set xs = set ys \<Longrightarrow> xs = ys"
proof (induction xs arbitrary: ys)
  case Nil
  then show ?case by simp
next
  case (Cons x xs)
  from Cons.prems(3) obtain y ys' where ys: "ys = y # ys'"
    by (cases ys) auto
  have irr: "\<not> R a a" for a using asym by blast
  have xy: "x = y"
  proof (rule ccontr)
    assume ne: "x \<noteq> y"
    then have "x \<in> set ys'" "y \<in> set xs" using Cons.prems(3) ys by auto
    then have "R y x" "R x y" using Cons.prems(1,2) ys by auto
    then show False using asym by blast
  qed
  have "x \<notin> set xs" "y \<notin> set ys'"
    using Cons.prems(1,2) ys irr by auto
  then have "set xs = set ys'"
    using Cons.prems(3) ys xy by auto
  moreover have "sorted_wrt R xs" "sorted_wrt R ys'"
    using Cons.prems(1,2) ys by simp_all
  ultimately have "xs = ys'" by (intro Cons.IH)
  then show ?case by (simp add: ys xy)
qed

lemma strictly_sorted_entries:
  assumes s: "sorted_wrt (\<lambda>a b. \<not> entry_less b a) es"
    and d: "distinct es"
    and i: "inj_on (\<lambda>e. Price (snd e)) (set es)"
    and n: "\<forall>e\<in>set es. Price (snd e) \<noteq> NaN"
  shows "sorted_wrt entry_less es"
  unfolding sorted_wrt_iff_nth_less
proof (intro allI impI)
  fix j k assume jk: "j < k" "k < length es"
  then have mem: "es ! j \<in> set es" "es ! k \<in> set es" by simp_all
  have "es ! j \<noteq> es ! k"
    using d jk by (simp add: nth_eq_iff_index_eq)
  then have "Price (snd (es ! j)) \<noteq> Price (snd (es ! k))"
    using i mem by (auto dest: inj_onD)
  then have "f64_gt (Price (snd (es ! j))) (Price (snd (es ! k))) \<or>
      f64_gt (Price (snd (es ! k))) (Price (snd (es ! j)))"
    using n mem by (intro f64_gt_total) auto
  moreover have "\<not> entry_less (es ! k) (es ! j)"
    using s jk by (simp add: sorted_wrt_iff_nth_less)
  ultimately show "entry_less (es ! j) (es ! k)"
    by (auto simp: entry_less_def)
qed

lemma RankCoreBids_of_entries:
  "RankCoreBids srt ks bids =
     (if bids = [] then \<lparr>Ranks = Map.empty, HighestBids = Map.empty, SortedBidders = []\<rparr>
      else assign_ranks 0 (srt entry_less (range_entries ks (group_bids bids Map.empty)))
             \<lparr>Ranks = Map.empty, HighestBids = Map.empty,
              SortedBidders =
                replicate (length (srt entry_less
                  (range_entries ks (group_bids bids Map.empty)))) ''''\<rparr>)"
  by (simp add: RankCoreBids_def Let_def)

lemma RankCoreBids_Ranks_dom:
  assumes c: "sort_Slice_contract srt" and o: "map_range_order (group_bids bids Map.empty) ks"
  shows "dom (Ranks (RankCoreBids srt ks bids)) = Bidder ` set bids"
proof -
  note f = sorted_entries_facts[OF c o, of entry_less]
  have "length (map fst (srt entry_less (range_entries ks (group_bids bids Map.empty)))) =
      length [1 ..< Suc (card (Bidder ` set bids))]"
    using f(4) by (simp only: length_map length_upt dom_group_bids) simp
  from dom_map_of_zip[OF this] show ?thesis
    using f(2) by (simp only: RankCoreBids_fields(3)[OF c o] dom_group_bids) simp
qed

lemma RankCoreBids_same_without_ties:
  assumes c1: "sort_Slice_contract srt1" and c2: "sort_Slice_contract srt2"
    and o1: "map_range_order (group_bids bids Map.empty) ks1"
    and o2: "map_range_order (group_bids bids Map.empty) ks2"
    and nn: "\<forall>x\<in>set bids. Price x \<noteq> NaN"
    and dp: "distinct (retained_prices (RankCoreBids srt1 ks1 bids))"
  shows "RankCoreBids srt1 ks1 bids = RankCoreBids srt2 ks2 bids"
proof -
  let ?m = "group_bids bids Map.empty"
  let ?e1 = "srt1 entry_less (range_entries ks1 ?m)"
  let ?e2 = "srt2 entry_less (range_entries ks2 ?m)"
  note f1 = sorted_entries_facts[OF c1 o1, of entry_less]
  note f2 = sorted_entries_facts[OF c2 o2, of entry_less]
  note p1 = sorted_entries_prices[OF c1 o1 nn]
  note p2 = sorted_entries_prices[OF c2 o2 nn]
  have se: "set ?e1 = set ?e2"
    using f1(1,3) f2(1,3) map_of_inject_set[of ?e1 ?e2] by simp
  have d1: "distinct ?e1" "distinct ?e2"
    using f1(1) f2(1) by (simp_all add: distinct_map)
  have "distinct (map (\<lambda>e. Price (snd e)) ?e1)"
    using dp by (simp add: retained_prices_eq[OF c1 o1])
  then have inj: "inj_on (\<lambda>e. Price (snd e)) (set ?e1)"
    by (simp add: distinct_map)
  have s1: "sorted_wrt entry_less ?e1"
    using p1(2) d1(1) inj p1(1) by (rule strictly_sorted_entries)
  have s2: "sorted_wrt entry_less ?e2"
    using p2(2) d1(2) inj[unfolded se] p2(1) by (rule strictly_sorted_entries)
  have "?e1 = ?e2"
    using s1 s2 se
  proof (rule sorted_wrt_unique[rotated])
    fix a b assume "entry_less a b"
    then show "\<not> entry_less b a" by (simp add: entry_less_def f64_gt_asym)
  qed
  then show ?thesis by (simp only: RankCoreBids_of_entries)
qed

text \<open>
  The example of the integration test: whatever the order of the range and whatever the
  sort, the bids a: 2.50, b: 2.25, c: 2.75 are ranked c, a, b.
\<close>

lemma integration_test_example:
  assumes "sort_Slice_contract srt" and "map_range_order (group_bids bids_abc Map.empty) ks"
  shows "SortedBidders (RankCoreBids srt ks bids_abc) = [''bidder_c'', ''bidder_a'', ''bidder_b'']"
    and "map_option Price (HighestBids (RankCoreBids srt ks bids_abc) ''bidder_c'') =
           Some (Finite 2.75)"
proof -
  have n: "\<forall>x\<in>set bids_abc. Price x \<noteq> NaN"
    by (simp add: bids_abc_def mk_bid_def)
  have d: "distinct (retained_prices
     (RankCoreBids insertion_sort [''bidder_a'', ''bidder_b'', ''bidder_c''] bids_abc))"
    unfolding bids_abc_result by simp
  have e: "RankCoreBids srt ks bids_abc =
      RankCoreBids insertion_sort [''bidder_a'', ''bidder_b'', ''bidder_c''] bids_abc"
    using RankCoreBids_same_without_ties[OF insertion_sort_contract assms(1) bids_abc_order
        assms(2) n d] by simp
  show "SortedBidders (RankCoreBids srt ks bids_abc) = [''bidder_c'', ''bidder_a'', ''bidder_b'']"
    unfolding e by (rule bids_abc_result)
  show "map_option Price (HighestBids (RankCoreBids srt ks bids_abc) ''bidder_c'') =
           Some (Finite 2.75)"
    unfolding e by (simp add: rank_eval bids_abc_def)
qed

text \<open>
  C9 (amended). Two evaluations of \<^verbatim>\<open>RankCoreBids\<close> on the same bids, each with its own
  order of the map range and its own sort, return the same \<^verbatim>\<open>HighestBids\<close> and rank
  the same bidders, and they return the same result altogether when no price is NaN and
  no two bidders have the same retained price. Nothing is said about the order of bidders
  whose retained prices are equal.
\<close>

theorem RankCoreBids_deterministic_without_ties:
  assumes c1: "sort_Slice_contract srt1" and c2: "sort_Slice_contract srt2"
    and o1: "map_range_order (group_bids bids Map.empty) ks1"
    and o2: "map_range_order (group_bids bids Map.empty) ks2"
  shows "HighestBids (RankCoreBids srt1 ks1 bids) = HighestBids (RankCoreBids srt2 ks2 bids) \<and>
         set (SortedBidders (RankCoreBids srt1 ks1 bids)) =
           set (SortedBidders (RankCoreBids srt2 ks2 bids)) \<and>
         dom (Ranks (RankCoreBids srt1 ks1 bids)) = dom (Ranks (RankCoreBids srt2 ks2 bids)) \<and>
         ((\<forall>x\<in>set bids. Price x \<noteq> NaN) \<and>
          distinct (retained_prices (RankCoreBids srt1 ks1 bids)) \<longrightarrow>
            RankCoreBids srt1 ks1 bids = RankCoreBids srt2 ks2 bids)"
proof -
  note f1 = sorted_entries_facts[OF c1 o1, of entry_less]
  note f2 = sorted_entries_facts[OF c2 o2, of entry_less]
  have hb: "HighestBids (RankCoreBids srt1 ks1 bids) = HighestBids (RankCoreBids srt2 ks2 bids)"
    by (simp add: RankCoreBids_fields(2)[OF c1 o1] RankCoreBids_fields(2)[OF c2 o2])
  have sb: "set (SortedBidders (RankCoreBids srt1 ks1 bids)) =
      set (SortedBidders (RankCoreBids srt2 ks2 bids))"
    using f1(2) f2(2)
    by (simp add: RankCoreBids_fields(1)[OF c1 o1] RankCoreBids_fields(1)[OF c2 o2])
  have rk: "dom (Ranks (RankCoreBids srt1 ks1 bids)) = dom (Ranks (RankCoreBids srt2 ks2 bids))"
    by (simp only: RankCoreBids_Ranks_dom[OF c1 o1] RankCoreBids_Ranks_dom[OF c2 o2])
  from hb sb rk RankCoreBids_same_without_ties[OF c1 c2 o1 o2] show ?thesis by blast
qed

lemma bids_abc_order_rev:
  "map_range_order (group_bids bids_abc Map.empty) [''bidder_c'', ''bidder_b'', ''bidder_a'']"
  by (auto simp: map_range_order_def dom_group_bids bids_abc_def mk_bid_def)

theorem RankCoreBids_deterministic_without_ties_witness:
  "sort_Slice_contract
     (insertion_sort :: (BidEntry \<Rightarrow> BidEntry \<Rightarrow> bool) \<Rightarrow> BidEntry list \<Rightarrow> BidEntry list) \<and>
   map_range_order (group_bids bids_abc Map.empty) [''bidder_a'', ''bidder_b'', ''bidder_c''] \<and>
   map_range_order (group_bids bids_abc Map.empty) [''bidder_c'', ''bidder_b'', ''bidder_a''] \<and>
   list_all (\<lambda>x. Price x \<noteq> NaN) bids_abc \<and>
   distinct (retained_prices
     (RankCoreBids insertion_sort [''bidder_a'', ''bidder_b'', ''bidder_c''] bids_abc)) \<and>
   RankCoreBids insertion_sort [''bidder_a'', ''bidder_b'', ''bidder_c''] bids_abc =
     RankCoreBids insertion_sort [''bidder_c'', ''bidder_b'', ''bidder_a''] bids_abc"
proof -
  have n: "\<forall>x\<in>set bids_abc. Price x \<noteq> NaN"
    by (simp add: bids_abc_def mk_bid_def)
  have d: "distinct (retained_prices
     (RankCoreBids insertion_sort [''bidder_a'', ''bidder_b'', ''bidder_c''] bids_abc))"
    unfolding bids_abc_result by simp
  from RankCoreBids_deterministic_without_ties[OF insertion_sort_contract
      insertion_sort_contract bids_abc_order bids_abc_order_rev] n d
  have "RankCoreBids insertion_sort [''bidder_a'', ''bidder_b'', ''bidder_c''] bids_abc =
     RankCoreBids insertion_sort [''bidder_c'', ''bidder_b'', ''bidder_a''] bids_abc"
    by blast
  moreover have "list_all (\<lambda>x. Price x \<noteq> NaN) bids_abc"
    using n by (simp add: list_all_iff)
  ultimately show ?thesis
    by (intro conjI insertion_sort_contract bids_abc_order bids_abc_order_rev d)
qed

text \<open>
  Not in general, as C9 was stated: two bidders at the same price come out in the order
  in which the range over the map met them, and that order differs from run to run.
\<close>

lemma bids_tie_order:
  "map_range_order (group_bids bids_tie Map.empty) [''a'', ''b'']"
  "map_range_order (group_bids bids_tie Map.empty) [''b'', ''a'']"
  by (auto simp: map_range_order_def dom_group_bids bids_tie_def mk_bid_def)

lemma bids_tie_result:
  "SortedBidders (RankCoreBids insertion_sort [''a'', ''b''] bids_tie) = [''a'', ''b'']"
  "SortedBidders (RankCoreBids insertion_sort [''b'', ''a''] bids_tie) = [''b'', ''a'']"
  "Ranks (RankCoreBids insertion_sort [''a'', ''b''] bids_tie) ''a'' = Some 1"
  "Ranks (RankCoreBids insertion_sort [''b'', ''a''] bids_tie) ''a'' = Some 2"
  by (simp_all add: rank_eval bids_tie_def)

theorem RankCoreBids_tie_order_varies:
  "sort_Slice_contract
     (insertion_sort :: (BidEntry \<Rightarrow> BidEntry \<Rightarrow> bool) \<Rightarrow> BidEntry list \<Rightarrow> BidEntry list) \<and>
   map_range_order (group_bids bids_tie Map.empty) [''a'', ''b''] \<and>
   map_range_order (group_bids bids_tie Map.empty) [''b'', ''a''] \<and>
   SortedBidders (RankCoreBids insertion_sort [''a'', ''b''] bids_tie) = [''a'', ''b''] \<and>
   SortedBidders (RankCoreBids insertion_sort [''b'', ''a''] bids_tie) = [''b'', ''a''] \<and>
   Ranks (RankCoreBids insertion_sort [''a'', ''b''] bids_tie) ''a'' = Some 1 \<and>
   Ranks (RankCoreBids insertion_sort [''b'', ''a''] bids_tie) ''a'' = Some 2 \<and>
   RankCoreBids insertion_sort [''a'', ''b''] bids_tie \<noteq>
     RankCoreBids insertion_sort [''b'', ''a''] bids_tie"
proof -
  have "RankCoreBids insertion_sort [''a'', ''b''] bids_tie \<noteq>
     RankCoreBids insertion_sort [''b'', ''a''] bids_tie"
  proof
    assume "RankCoreBids insertion_sort [''a'', ''b''] bids_tie =
      RankCoreBids insertion_sort [''b'', ''a''] bids_tie"
    then have "SortedBidders (RankCoreBids insertion_sort [''a'', ''b''] bids_tie) =
      SortedBidders (RankCoreBids insertion_sort [''b'', ''a''] bids_tie)"
      by (rule arg_cong)
    then show False unfolding bids_tie_result by simp
  qed
  then show ?thesis
    by (intro conjI insertion_sort_contract bids_tie_order bids_tie_result)
qed


section \<open>Properties of the hybrid encryption\<close>

lemma EncryptHybrid_Inr:
  assumes "fst (EncryptHybrid lib g x pub) = Inr res"
  shows "\<exists>aesKey g1 nonceBytes g2 c g3.
           rand_Read lib 32 g = (Inr aesKey, g1) \<and>
           aes_NewCipher aesKey = Inr aesKey \<and>
           rand_Read lib gcm_NonceSize g1 = (Inr nonceBytes, g2) \<and>
           rsa_EncryptOAEP lib g2 pub aesKey = (Inr c, g3) \<and>
           res = \<lparr>EncryptedAESKey = base64_EncodeToString lib c,
                  EncryptedPayload =
                    base64_EncodeToString lib (gcm_Seal lib aesKey nonceBytes x),
                  Nonce = base64_EncodeToString lib nonceBytes\<rparr>"
  using assms unfolding EncryptHybrid_def cipher_NewGCM_def aes_NewCipher_def Let_def
  by (auto split: prod.splits sum.splits if_splits)

text \<open>
  C5. Under a library that keeps its contract, for every plaintext \<open>x\<close>, every private key
  and every state of the random source: when \<^verbatim>\<open>EncryptHybrid\<close> under the public key of
  that private key returns a result, \<^verbatim>\<open>DecryptHybrid\<close> applied to its three strings
  and the private key succeeds and returns exactly \<open>x\<close>.
\<close>

theorem DecryptHybrid_EncryptHybrid:
  assumes c: "go_crypto_contract lib"
    and e: "fst (EncryptHybrid lib g x (rsa_PublicKey lib priv)) = Inr res"
  shows "DecryptHybrid lib (EncryptedAESKey res) (EncryptedPayload res) (Nonce res) priv = Inr x"
proof -
  from EncryptHybrid_Inr[OF e] obtain aesKey g1 nonceBytes g2 c' g3 where
    k: "rand_Read lib 32 g = (Inr aesKey, g1)" and
    n: "rand_Read lib gcm_NonceSize g1 = (Inr nonceBytes, g2)" and
    o: "rsa_EncryptOAEP lib g2 (rsa_PublicKey lib priv) aesKey = (Inr c', g3)" and
    r: "res = \<lparr>EncryptedAESKey = base64_EncodeToString lib c',
                EncryptedPayload =
                  base64_EncodeToString lib (gcm_Seal lib aesKey nonceBytes x),
                Nonce = base64_EncodeToString lib nonceBytes\<rparr>"
    by blast
  have b64: "\<And>bs. base64_DecodeString lib (base64_EncodeToString lib bs) = Inr bs"
    and rd: "\<And>n g bs g'. rand_Read lib n g = (Inr bs, g') \<Longrightarrow> length bs = n"
    and oaep: "\<And>g priv msg c g'.
         rsa_EncryptOAEP lib g (rsa_PublicKey lib priv) msg = (Inr c, g') \<Longrightarrow>
         rsa_DecryptOAEP lib priv c = Inr msg"
    and gcm: "\<And>k nonce plaintext. length k = 32 \<Longrightarrow> length nonce = 12 \<Longrightarrow>
         gcm_Open lib k nonce (gcm_Seal lib k nonce plaintext) = Inr plaintext"
    using c unfolding go_crypto_contract_def by blast+
  have lk: "length aesKey = 32" using rd[OF k] .
  have ln: "length nonceBytes = 12" using rd[OF n] by (simp add: gcm_NonceSize_def)
  have d: "rsa_DecryptOAEP lib priv c' = Inr aesKey" using oaep[OF o] .
  have op: "gcm_Open lib aesKey nonceBytes (gcm_Seal lib aesKey nonceBytes x) = Inr x"
    using gcm[OF lk ln] .
  show ?thesis
    by (simp add: DecryptHybrid_def r b64 d lk ln op aes_NewCipher_def cipher_NewGCM_def
        gcm_NonceSize_def)
qed

text \<open>\<^verbatim>\<open>EncryptHybrid\<close> fails only when a call of the library fails.\<close>

lemma EncryptHybrid_succeeds:
  assumes "go_crypto_contract lib"
    and "rand_Read lib 32 g = (Inr aesKey, g1)"
    and "rand_Read lib gcm_NonceSize g1 = (Inr nonceBytes, g2)"
    and "rsa_EncryptOAEP lib g2 pub aesKey = (Inr c, g3)"
  shows "\<exists>res. EncryptHybrid lib g x pub = (Inr res, g3)"
proof -
  have "length aesKey = 32"
    using assms(1,2) unfolding go_crypto_contract_def by blast
  then show ?thesis
    using assms(2-4)
    by (simp add: EncryptHybrid_def aes_NewCipher_def cipher_NewGCM_def Let_def)
qed

lemma toy_lib_contract: "go_crypto_contract toy_lib"
  by (auto simp: go_crypto_contract_def toy_lib_def toy_open_def toy_decrypt_oaep_def)

lemma toy_EncryptHybrid:
  "EncryptHybrid toy_lib 0 x (rsa_PublicKey toy_lib CHR ''k'') = (Inr (toy_encrypted x), 3)"
  by (simp add: EncryptHybrid_def toy_lib_def toy_encrypted_def aes_NewCipher_def
      cipher_NewGCM_def gcm_NonceSize_def Let_def numeral_3_eq_3)

theorem DecryptHybrid_EncryptHybrid_witness:
  "go_crypto_contract toy_lib \<and>
   fst (EncryptHybrid toy_lib 0 ''Hello, World!'' (rsa_PublicKey toy_lib CHR ''k'')) =
     Inr (toy_encrypted ''Hello, World!'') \<and>
   DecryptHybrid toy_lib (EncryptedAESKey (toy_encrypted ''Hello, World!''))
     (EncryptedPayload (toy_encrypted ''Hello, World!''))
     (Nonce (toy_encrypted ''Hello, World!'')) CHR ''k'' = Inr ''Hello, World!''"
proof -
  have e: "fst (EncryptHybrid toy_lib 0 ''Hello, World!'' (rsa_PublicKey toy_lib CHR ''k'')) =
     Inr (toy_encrypted ''Hello, World!'')"
    by (simp add: toy_EncryptHybrid)
  from DecryptHybrid_EncryptHybrid[OF toy_lib_contract e] toy_lib_contract e
  show ?thesis by blast
qed


section \<open>Properties of the pipeline and the filter\<close>

subsection \<open>A bid that fails to decrypt\<close>

lemmas results_of = decryptedBids_of_def excludedBids_of_def errorReports_of_def

lemma decryptAllBids_append:
  "decryptAllBids lib parse (xs @ ys) km =
     (decryptedBids_of (decryptAllBids lib parse xs km) @
        decryptedBids_of (decryptAllBids lib parse ys km),
      excludedBids_of (decryptAllBids lib parse xs km) @
        excludedBids_of (decryptAllBids lib parse ys km),
      errorReports_of (decryptAllBids lib parse xs km) @
        errorReports_of (decryptAllBids lib parse ys km))"
  by (induction xs) (auto simp: results_of split: prod.splits sum.splits)

lemma exclusions_match_reports:
  "map BidID (excludedBids_of (decryptAllBids lib parse bids km)) =
     map ErrBidID (errorReports_of (decryptAllBids lib parse bids km)) \<and>
   map Bidder' (excludedBids_of (decryptAllBids lib parse bids km)) =
     map ErrBidder (errorReports_of (decryptAllBids lib parse bids km)) \<and>
   length (decryptedBids_of (decryptAllBids lib parse bids km)) +
     length (excludedBids_of (decryptAllBids lib parse bids km)) = length bids"
proof (induction bids)
  case Nil
  then show ?case by (simp add: results_of)
next
  case (Cons b bids)
  then show ?case
    by (auto simp: results_of decrypt_bid_def split: prod.splits sum.splits option.splits)
qed

text \<open>
  C6. A bid whose encrypted price fails to decrypt under the key of the enclave, anywhere
  in a batch: the results of the batch are the results of the bids before it, then one
  exclusion record and one error report for this bid, both with its identifier and its
  bidder, then the results of the bids after it. The bid adds nothing to the decrypted
  bids, and the bids around it are processed as they would be without it. In the whole
  batch the exclusion records and the error reports name the same bids in the same
  order, and every bid of the batch is either decrypted or excluded.
\<close>

theorem decryptAllBids_isolates_failure:
  assumes "EncryptedPrice b = Some ep"
    and "DecryptHybrid lib (AESKeyEncrypted ep) (EncryptedPayload' ep) (Nonce' ep)
           (PrivateKey km) = Inl err"
  shows "decryptedBids_of (decryptAllBids lib parse (before @ b # after) (Some km)) =
           decryptedBids_of (decryptAllBids lib parse before (Some km)) @
           decryptedBids_of (decryptAllBids lib parse after (Some km)) \<and>
         excludedBids_of (decryptAllBids lib parse (before @ b # after) (Some km)) =
           excludedBids_of (decryptAllBids lib parse before (Some km)) @
           \<lparr>BidID = ID (CoreBid b), Bidder' = Bidder (CoreBid b),
             Reason = ''decryption failure''\<rparr> #
           excludedBids_of (decryptAllBids lib parse after (Some km)) \<and>
         errorReports_of (decryptAllBids lib parse (before @ b # after) (Some km)) =
           errorReports_of (decryptAllBids lib parse before (Some km)) @
           \<lparr>ErrBidID = ID (CoreBid b), ErrBidder = Bidder (CoreBid b),
             Cause = DecryptFailed err\<rparr> #
           errorReports_of (decryptAllBids lib parse after (Some km)) \<and>
         map BidID (excludedBids_of (decryptAllBids lib parse (before @ b # after) (Some km))) =
           map ErrBidID
             (errorReports_of (decryptAllBids lib parse (before @ b # after) (Some km))) \<and>
         map Bidder' (excludedBids_of (decryptAllBids lib parse (before @ b # after) (Some km))) =
           map ErrBidder
             (errorReports_of (decryptAllBids lib parse (before @ b # after) (Some km))) \<and>
         length (decryptedBids_of (decryptAllBids lib parse (before @ b # after) (Some km))) +
           length (excludedBids_of (decryptAllBids lib parse (before @ b # after) (Some km))) =
           length (before @ b # after)"
proof -
  note m = exclusions_match_reports[of lib parse "before @ b # after" "Some km"]
  have "decrypt_bid lib parse (Some km) b =
      Inl (\<lparr>BidID = ID (CoreBid b), Bidder' = Bidder (CoreBid b),
             Reason = ''decryption failure''\<rparr>,
           \<lparr>ErrBidID = ID (CoreBid b), ErrBidder = Bidder (CoreBid b),
             Cause = DecryptFailed err\<rparr>)"
    using assms by (simp add: decrypt_bid_def)
  then have "decryptAllBids lib parse (before @ b # after) (Some km) =
      (decryptedBids_of (decryptAllBids lib parse before (Some km)) @
         decryptedBids_of (decryptAllBids lib parse after (Some km)),
       excludedBids_of (decryptAllBids lib parse before (Some km)) @
         \<lparr>BidID = ID (CoreBid b), Bidder' = Bidder (CoreBid b),
           Reason = ''decryption failure''\<rparr> #
         excludedBids_of (decryptAllBids lib parse after (Some km)),
       errorReports_of (decryptAllBids lib parse before (Some km)) @
         \<lparr>ErrBidID = ID (CoreBid b), ErrBidder = Bidder (CoreBid b),
           Cause = DecryptFailed err\<rparr> #
         errorReports_of (decryptAllBids lib parse after (Some km)))"
    unfolding decryptAllBids_append[of lib parse before "b # after"]
    by (simp add: results_of split: prod.splits)
  then have "decryptedBids_of (decryptAllBids lib parse (before @ b # after) (Some km)) =
        decryptedBids_of (decryptAllBids lib parse before (Some km)) @
        decryptedBids_of (decryptAllBids lib parse after (Some km))"
    and "excludedBids_of (decryptAllBids lib parse (before @ b # after) (Some km)) =
        excludedBids_of (decryptAllBids lib parse before (Some km)) @
        \<lparr>BidID = ID (CoreBid b), Bidder' = Bidder (CoreBid b),
          Reason = ''decryption failure''\<rparr> #
        excludedBids_of (decryptAllBids lib parse after (Some km))"
    and "errorReports_of (decryptAllBids lib parse (before @ b # after) (Some km)) =
        errorReports_of (decryptAllBids lib parse before (Some km)) @
        \<lparr>ErrBidID = ID (CoreBid b), ErrBidder = Bidder (CoreBid b),
          Cause = DecryptFailed err\<rparr> #
        errorReports_of (decryptAllBids lib parse after (Some km))"
    by (simp_all add: results_of)
  with m show ?thesis by blast
qed

lemma sealed_bid_price:
  "EncryptedPrice (sealed_bid i b p payload) = Some (sealed_price payload)"
  by (simp add: sealed_bid_def)

lemma toy_wrong_key:
  "DecryptHybrid toy_lib (AESKeyEncrypted (sealed_price payload))
     (EncryptedPayload' (sealed_price payload)) (Nonce' (sealed_price payload))
     (PrivateKey km_other) = Inl (FailedDecryptAESKey ''crypto/rsa: decryption error'')"
  by (simp add: DecryptHybrid_def toy_lib_def toy_encrypted_def toy_decrypt_oaep_def
      km_other_def sealed_price_def)

lemma toy_right_key:
  "DecryptHybrid toy_lib (AESKeyEncrypted (sealed_price payload))
     (EncryptedPayload' (sealed_price payload)) (Nonce' (sealed_price payload))
     (PrivateKey km_k) = Inr payload"
  by (simp add: DecryptHybrid_def toy_lib_def toy_encrypted_def toy_decrypt_oaep_def
      toy_open_def km_k_def aes_NewCipher_def cipher_NewGCM_def gcm_NonceSize_def
      sealed_price_def)

lemma plain_bid_alone:
  "decryptAllBids lib parse [plain_bid i b q] km = ([\<lparr>Bid = mk_bid i b q, Token = []\<rparr>], [], [])"
  by (simp add: decrypt_bid_def plain_bid_def)

theorem decryptAllBids_isolates_failure_witness:
  "EncryptedPrice (sealed_bid ''bid1'' ''bidder1'' (Finite 0) ''price:5.75'') =
     Some (sealed_price ''price:5.75'') \<and>
   DecryptHybrid toy_lib (AESKeyEncrypted (sealed_price ''price:5.75''))
     (EncryptedPayload' (sealed_price ''price:5.75'')) (Nonce' (sealed_price ''price:5.75''))
     (PrivateKey km_other) = Inl (FailedDecryptAESKey ''crypto/rsa: decryption error'') \<and>
   excludedBids_of (decryptAllBids toy_lib toy_parse
     ([plain_bid ''bid0'' ''bidder0'' (Finite 2.5)] @
      sealed_bid ''bid1'' ''bidder1'' (Finite 0) ''price:5.75'' #
      [plain_bid ''bid2'' ''bidder2'' (Finite 3)]) (Some km_other)) =
     [\<lparr>BidID = ''bid1'', Bidder' = ''bidder1'', Reason = ''decryption failure''\<rparr>] \<and>
   errorReports_of (decryptAllBids toy_lib toy_parse
     ([plain_bid ''bid0'' ''bidder0'' (Finite 2.5)] @
      sealed_bid ''bid1'' ''bidder1'' (Finite 0) ''price:5.75'' #
      [plain_bid ''bid2'' ''bidder2'' (Finite 3)]) (Some km_other)) =
     [\<lparr>ErrBidID = ''bid1'', ErrBidder = ''bidder1'',
       Cause = DecryptFailed (FailedDecryptAESKey ''crypto/rsa: decryption error'')\<rparr>] \<and>
   map (\<lambda>d. ID (Bid d)) (decryptedBids_of (decryptAllBids toy_lib toy_parse
     ([plain_bid ''bid0'' ''bidder0'' (Finite 2.5)] @
      sealed_bid ''bid1'' ''bidder1'' (Finite 0) ''price:5.75'' #
      [plain_bid ''bid2'' ''bidder2'' (Finite 3)]) (Some km_other))) = [''bid0'', ''bid2'']"
proof -
  have i: "ID (CoreBid (sealed_bid ''bid1'' ''bidder1'' (Finite 0) ''price:5.75'')) = ''bid1''"
    "Bidder (CoreBid (sealed_bid ''bid1'' ''bidder1'' (Finite 0) ''price:5.75'')) = ''bidder1''"
    by (simp_all add: sealed_bid_def mk_bid_def)
  from decryptAllBids_isolates_failure[
      OF sealed_bid_price[of "''bid1''" "''bidder1''" "Finite 0" "''price:5.75''"]
         toy_wrong_key[of "''price:5.75''"],
      where parse = toy_parse
        and before = "[plain_bid ''bid0'' ''bidder0'' (Finite 2.5)]"
        and after = "[plain_bid ''bid2'' ''bidder2'' (Finite 3)]"]
  show ?thesis
    unfolding plain_bid_alone i
    by (simp add: results_of sealed_bid_price toy_wrong_key mk_bid_def)
qed

subsection \<open>Prices that are not valid\<close>

lemma filter_admits_ok:
  "x \<in> set (fst (filterBidsByConsumedTokens ds consumed)) \<Longrightarrow> price_ok (Price x)"
  by (induction ds arbitrary: x)
     (auto simp: filter_bid_def split: prod.splits sum.splits if_splits)

lemma filter_excludes_invalid:
  "d \<in> set ds \<Longrightarrow> \<not> price_ok (Price (Bid d)) \<Longrightarrow>
   \<lparr>BidID = ID (Bid d), Bidder' = Bidder (Bid d), Reason = ''invalid price''\<rparr>
     \<in> set (snd (filterBidsByConsumedTokens ds consumed))"
  by (induction ds) (auto simp: filter_bid_def split: prod.splits sum.splits if_splits)

text \<open>
  C7. A bid whose encrypted price decrypts and parses to a price that is not a finite
  number greater than zero: the decryption stage passes it on with that price and adds no
  exclusion record and no error report for it; the filter stage, for every list of
  decrypted bids that holds it and every set of consumed tokens, excludes it with the
  reason "invalid price", and every bid the filter admits has a finite price greater
  than zero, so this bid is not among them.
\<close>

theorem invalid_price_excluded_by_filter:
  assumes "EncryptedPrice b = Some ep"
    and "DecryptHybrid lib (AESKeyEncrypted ep) (EncryptedPayload' ep) (Nonce' ep)
           (PrivateKey km) = Inr plaintext"
    and "parse plaintext = Inr payload"
    and "\<not> price_ok (Price' payload)"
    and "d = \<lparr>Bid = (CoreBid b)\<lparr>Price := Price' payload\<rparr>, Token = AuctionToken' payload\<rparr>"
    and "d \<in> set ds"
  shows "decryptedBids_of (decryptAllBids lib parse (before @ b # after) (Some km)) =
           decryptedBids_of (decryptAllBids lib parse before (Some km)) @ d #
           decryptedBids_of (decryptAllBids lib parse after (Some km)) \<and>
         excludedBids_of (decryptAllBids lib parse (before @ b # after) (Some km)) =
           excludedBids_of (decryptAllBids lib parse before (Some km)) @
           excludedBids_of (decryptAllBids lib parse after (Some km)) \<and>
         errorReports_of (decryptAllBids lib parse (before @ b # after) (Some km)) =
           errorReports_of (decryptAllBids lib parse before (Some km)) @
           errorReports_of (decryptAllBids lib parse after (Some km)) \<and>
         \<lparr>BidID = ID (CoreBid b), Bidder' = Bidder (CoreBid b), Reason = ''invalid price''\<rparr>
           \<in> set (snd (filterBidsByConsumedTokens ds consumed)) \<and>
         Bid d \<notin> set (fst (filterBidsByConsumedTokens ds consumed)) \<and>
         list_all (\<lambda>x. price_ok (Price x)) (fst (filterBidsByConsumedTokens ds consumed))"
proof -
  have "decrypt_bid lib parse (Some km) b = Inr d"
    using assms(1-3,5) by (simp add: decrypt_bid_def)
  then have stage1:
    "decryptAllBids lib parse (before @ b # after) (Some km) =
       (decryptedBids_of (decryptAllBids lib parse before (Some km)) @ d #
          decryptedBids_of (decryptAllBids lib parse after (Some km)),
        excludedBids_of (decryptAllBids lib parse before (Some km)) @
          excludedBids_of (decryptAllBids lib parse after (Some km)),
        errorReports_of (decryptAllBids lib parse before (Some km)) @
          errorReports_of (decryptAllBids lib parse after (Some km)))"
    unfolding decryptAllBids_append[of lib parse before "b # after"]
    by (simp add: results_of split: prod.splits)
  have bad: "\<not> price_ok (Price (Bid d))" using assms(4,5) by simp
  from filter_excludes_invalid[OF assms(6) bad, of consumed]
  have ex: "\<lparr>BidID = ID (CoreBid b), Bidder' = Bidder (CoreBid b), Reason = ''invalid price''\<rparr>
      \<in> set (snd (filterBidsByConsumedTokens ds consumed))"
    by (simp add: assms(5))
  have out: "Bid d \<notin> set (fst (filterBidsByConsumedTokens ds consumed))"
    using filter_admits_ok bad by blast
  have ok: "list_all (\<lambda>x. price_ok (Price x)) (fst (filterBidsByConsumedTokens ds consumed))"
    using filter_admits_ok by (auto simp: list_all_iff)
  show ?thesis
    unfolding stage1 using ex out ok by (simp add: results_of)
qed

theorem invalid_price_excluded_by_filter_witness:
  "EncryptedPrice (sealed_bid ''bid1'' ''bidder1'' (Finite 0) ''price:-1.50'') =
     Some (sealed_price ''price:-1.50'') \<and>
   DecryptHybrid toy_lib (AESKeyEncrypted (sealed_price ''price:-1.50''))
     (EncryptedPayload' (sealed_price ''price:-1.50'')) (Nonce' (sealed_price ''price:-1.50''))
     (PrivateKey km_k) = Inr ''price:-1.50'' \<and>
   toy_parse ''price:-1.50'' = Inr \<lparr>Price' = Finite (-1.5), AuctionToken' = ''''\<rparr> \<and>
   \<not> price_ok (Finite (-1.5)) \<and>
   decryptAllBids toy_lib toy_parse
     [sealed_bid ''bid1'' ''bidder1'' (Finite 0) ''price:-1.50''] (Some km_k) =
     ([negative_bid], [], []) \<and>
   \<lparr>BidID = ''bid1'', Bidder' = ''bidder1'', Reason = ''invalid price''\<rparr>
     \<in> set (snd (filterBidsByConsumedTokens [negative_bid] {})) \<and>
   fst (filterBidsByConsumedTokens [negative_bid] {}) = []"
proof -
  have p: "toy_parse ''price:-1.50'' = Inr \<lparr>Price' = Finite (-1.5), AuctionToken' = ''''\<rparr>"
    by (simp add: toy_parse_def)
  have n: "\<not> price_ok (Price' \<lparr>Price' = Finite (-1.5), AuctionToken' = ''''\<rparr>)"
    by (simp add: price_ok_def)
  have d: "negative_bid =
      \<lparr>Bid = (CoreBid (sealed_bid ''bid1'' ''bidder1'' (Finite 0) ''price:-1.50''))
               \<lparr>Price := Price' \<lparr>Price' = Finite (-1.5), AuctionToken' = ''''\<rparr>\<rparr>,
        Token = AuctionToken' \<lparr>Price' = Finite (-1.5), AuctionToken' = ''''\<rparr>\<rparr>"
    by (simp add: negative_bid_def sealed_bid_def mk_bid_def)
  have m: "negative_bid \<in> set [negative_bid]" by simp
  have i: "ID (CoreBid (sealed_bid ''bid1'' ''bidder1'' (Finite 0) ''price:-1.50'')) = ''bid1''"
    "Bidder (CoreBid (sealed_bid ''bid1'' ''bidder1'' (Finite 0) ''price:-1.50'')) =
       ''bidder1''"
    by (simp_all add: sealed_bid_def mk_bid_def)
  have f: "fst (filterBidsByConsumedTokens [negative_bid] {}) = []"
    by (simp add: filter_bid_def negative_bid_def mk_bid_def price_ok_def)
  have a: "decryptAllBids toy_lib toy_parse
     [sealed_bid ''bid1'' ''bidder1'' (Finite 0) ''price:-1.50''] (Some km_k) =
     ([negative_bid], [], [])"
    by (simp add: decrypt_bid_def toy_right_key p negative_bid_def sealed_bid_def mk_bid_def)
  from invalid_price_excluded_by_filter[
      where parse = toy_parse and lib = toy_lib and km = km_k
        and before = "[]" and after = "[]" and consumed = "{}" and ds = "[negative_bid]",
      OF sealed_bid_price[of "''bid1''" "''bidder1''" "Finite 0" "''price:-1.50''"]
         toy_right_key[of "''price:-1.50''"] p n d m]
  have "\<lparr>BidID = ''bid1'', Bidder' = ''bidder1'', Reason = ''invalid price''\<rparr>
     \<in> set (snd (filterBidsByConsumedTokens [negative_bid] {}))"
    unfolding i by blast
  then show ?thesis
    using sealed_bid_price toy_right_key p a f by (simp add: price_ok_def)
qed

subsection \<open>Without a key manager\<close>

text \<open>
  C8. Without a key manager every bid passes through, in input order, as the bid it
  embeds with the price that bid carries, whether or not it has an encrypted price, and
  there is no exclusion record and no error report.
\<close>

theorem decryptAllBids_without_key_manager:
  "decryptAllBids lib parse bids None =
     (map (\<lambda>b. \<lparr>Bid = CoreBid b, Token = []\<rparr>) bids, [], [])"
  by (induction bids) (simp_all add: decrypt_bid_def split: option.splits)

text \<open>
  So a bid that carries only an encrypted price goes on, without a key manager, with the
  price zero of its plaintext field.
\<close>

lemma sealed_bid_without_key_manager:
  "decryptAllBids lib parse [sealed_bid i b (Finite 0) payload] None =
     ([\<lparr>Bid = mk_bid i b (Finite 0), Token = []\<rparr>], [], [])"
  by (simp add: decrypt_bid_def sealed_bid_def)

end
